theory Spec2Isabelle
  imports Complex_Main "HOL-Library.Word"
begin

section \<open>The double-spend proof storage (dsproof/storage.cpp)\<close>

subsection \<open>Data\<close>

text \<open>
  A proof identity (\<open>DspId\<close>, a 256-bit hash) is a natural number, a peer handle
  (\<open>NodeId\<close>, \<open>int64_t\<close>) and a time stamp (\<open>int64_t\<close>) are integers: the code only
  compares and copies them. The counters are \<open>size_t\<close>; they count records of the
  container, whose size is itself a \<open>size_t\<close>, so they are natural numbers here.
\<close>

type_synonym DspId = nat
type_synonym NodeId = int
type_synonym COutPoint = "nat \<times> nat"

text \<open>
  Modelled from the spec: the proof payload (class \<open>DoubleSpendProof\<close>, declared outside
  storage.cpp) is opaque and exposes its identity, the output it references and whether
  it is empty. A default-constructed proof is the empty sentinel.
\<close>

record DoubleSpendProof =
  GetId :: DspId
  prevOut :: COutPoint
  isEmpty :: bool

definition DoubleSpendProof_default :: DoubleSpendProof where
  "DoubleSpendProof_default = \<lparr>GetId = 0, prevOut = (0, 0), isEmpty = True\<rparr>"

text \<open>
  Modelled from the spec: a stored record (struct \<open>Entry\<close> of storage.h); a new record
  is not an orphan and has peer handle and time stamp unset (-1).
\<close>

record Entry =
  orphan :: bool
  nodeId :: NodeId
  timeStamp :: int
  dsproof :: DoubleSpendProof

definition Entry_new :: "DoubleSpendProof \<Rightarrow> Entry" where
  "Entry_new p = \<lparr>orphan = False, nodeId = - 1, timeStamp = - 1, dsproof = p\<rparr>"

abbreviation entryId :: "Entry \<Rightarrow> DspId" where
  "entryId e \<equiv> GetId (dsproof e)"

text \<open>The two keys of a salted hasher, drawn at construction.\<close>

record SaltedHasher =
  k0 :: "64 word"
  k1 :: "64 word"

text \<open>
  Modelled from the spec: the recently-rejected filter (\<open>CRollingBloomFilter\<close>, outside
  storage.cpp) is a probabilistic set: a family of \<open>nHashFuncs\<close> hash functions maps an
  identity to bit positions; inserting sets them, a query is true when all of them are
  set (so it can be true for an identity never inserted), a reset clears every bit.
\<close>

record CRollingBloomFilter =
  hashFunc :: "nat \<Rightarrow> DspId \<Rightarrow> nat"
  bits :: "nat set"

definition nHashFuncs :: nat where
  "nHashFuncs = 20"

definition positions :: "CRollingBloomFilter \<Rightarrow> DspId \<Rightarrow> nat list" where
  "positions f h = map (\<lambda>i. hashFunc f i h) [0..<nHashFuncs]"

definition filter_insert :: "DspId \<Rightarrow> CRollingBloomFilter \<Rightarrow> CRollingBloomFilter" where
  "filter_insert h f = f\<lparr>bits := bits f \<union> set (positions f h)\<rparr>"

definition filter_contains :: "CRollingBloomFilter \<Rightarrow> DspId \<Rightarrow> bool" where
  "filter_contains f h = list_all (\<lambda>p. p \<in> bits f) (positions f h)"

definition filter_reset :: "CRollingBloomFilter \<Rightarrow> CRollingBloomFilter" where
  "filter_reset f = f\<lparr>bits := {}\<rparr>"

text \<open>
  The store. \<open>m_proofs\<close> is the multi-index container, kept as the list of its records
  in the iteration order of the time-stamp index (ascending, equal stamps in the order
  they were linked); the identity index is a search of that list.
\<close>

record DoubleSpendProofStorage =
  m_proofs :: "Entry list"
  m_numOrphans :: nat
  m_maxOrphans :: nat
  m_secondsToKeepOrphans :: int
  m_recentRejects :: CRollingBloomFilter
  hasher_DspId :: SaltedHasher
  hasher_COutPoint :: SaltedHasher

text \<open>
  The constructor. The default limits are constants of storage.h and the hasher keys
  and the filter's hash family come from the random source: all are parameters.
\<close>

definition construct ::
  "nat \<Rightarrow> int \<Rightarrow> (nat \<Rightarrow> DspId \<Rightarrow> nat) \<Rightarrow> SaltedHasher \<Rightarrow> SaltedHasher \<Rightarrow> DoubleSpendProofStorage" where
  "construct maxO secs hf h1 h2 =
     \<lparr>m_proofs = [], m_numOrphans = 0, m_maxOrphans = maxO, m_secondsToKeepOrphans = secs,
      m_recentRejects = \<lparr>hashFunc = hf, bits = {}\<rparr>,
      hasher_DspId = h1, hasher_COutPoint = h2\<rparr>"

subsection \<open>Failures\<close>

text \<open>
  A call either returns or fails. A C++ exception (\<open>Thrown\<close>) propagates to the caller,
  who may catch it; the store is then as it was at the throw. A failed \<open>assert\<close> ends
  the process: \<open>AssertFailed\<close> for a plain assertion, \<open>FastFail h\<close> for \<open>ModFastFail\<close>,
  which first logs the identity \<open>h\<close> of the record.
\<close>

datatype exception = invalid_argument | runtime_error

datatype failure = Thrown exception | AssertFailed | FastFail DspId

fun catchable :: "failure \<Rightarrow> bool" where
  "catchable (Thrown _) = True"
| "catchable AssertFailed = False"
| "catchable (FastFail _) = False"

fun logged :: "failure \<Rightarrow> bool" where
  "logged (FastFail _) = True"
| "logged _ = False"

type_synonym 'a outcome = "(failure + 'a) \<times> DoubleSpendProofStorage"

definition bind_outcome ::
  "'a outcome \<Rightarrow> ('a \<Rightarrow> DoubleSpendProofStorage \<Rightarrow> 'b outcome) \<Rightarrow> 'b outcome" where
  "bind_outcome r f = (case r of (Inl err, s) \<Rightarrow> (Inl err, s) | (Inr a, s) \<Rightarrow> f a s)"

subsection \<open>The record index\<close>

text \<open>
  Modelled from the spec (the container is Boost's multi-index, instantiated in
  storage.h): find by identity; split the time-stamp order at a record; link a record
  after all records whose stamp is not greater; insert-unique; erase.
\<close>

definition find_id :: "DspId \<Rightarrow> Entry list \<Rightarrow> Entry option" where
  "find_id h xs = List.find (\<lambda>e. entryId e = h) xs"

fun split_at :: "DspId \<Rightarrow> Entry list \<Rightarrow> (Entry list \<times> Entry \<times> Entry list) option" where
  "split_at h [] = None"
| "split_at h (x # xs) =
     (if entryId x = h then Some ([], x, xs)
      else (case split_at h xs of None \<Rightarrow> None
            | Some (pre, e, post) \<Rightarrow> Some (x # pre, e, post)))"

definition link :: "Entry \<Rightarrow> Entry list \<Rightarrow> Entry list" where
  "link e xs = takeWhile (\<lambda>x. timeStamp x \<le> timeStamp e) xs @ e #
               dropWhile (\<lambda>x. timeStamp x \<le> timeStamp e) xs"

definition emplace :: "Entry \<Rightarrow> Entry list \<Rightarrow> Entry list" where
  "emplace e xs = (if find_id (entryId e) xs = None then link e xs else xs)"

definition erase :: "DspId \<Rightarrow> Entry list \<Rightarrow> Entry list" where
  "erase h xs = (case split_at h xs of None \<Rightarrow> xs | Some (pre, e, post) \<Rightarrow> pre @ post)"

text \<open>
  A record modified where it stands keeps its place when its neighbours in the
  time-stamp order still agree with it, and is linked anew otherwise.
\<close>

definition in_place :: "Entry list \<Rightarrow> Entry \<Rightarrow> Entry list \<Rightarrow> bool" where
  "in_place pre e post =
     ((pre = [] \<or> timeStamp (last pre) \<le> timeStamp e) \<and>
      (post = [] \<or> timeStamp e \<le> timeStamp (hd post)))"

text \<open>
  \<open>ModFastFail\<close>: the functor the container calls when a modification cannot be
  committed; it logs the record's identity and asserts false.
\<close>

definition ModFastFail :: "Entry \<Rightarrow> failure" where
  "ModFastFail e = FastFail (entryId e)"

text \<open>
  Committing a modified record \<open>e\<close> standing between \<open>pre\<close> and \<open>post\<close>: the update
  cannot be committed when another record has the identity of \<open>e\<close> (the identity index
  is unique); then \<open>ModFastFail\<close> runs.
\<close>

definition commit ::
  "Entry list \<Rightarrow> Entry \<Rightarrow> Entry list \<Rightarrow> DoubleSpendProofStorage \<Rightarrow> unit outcome" where
  "commit pre e post s =
     (if find_id (entryId e) (pre @ post) \<noteq> None
      then (Inl (ModFastFail e), s\<lparr>m_proofs := pre @ e # post\<rparr>)
      else (Inr (), s\<lparr>m_proofs := (if in_place pre e post then pre @ e # post
                                     else link e (pre @ post))\<rparr>))"

definition modify ::
  "DspId \<Rightarrow> (Entry \<Rightarrow> Entry) \<Rightarrow> DoubleSpendProofStorage \<Rightarrow> unit outcome" where
  "modify h f s =
     (case split_at h (m_proofs s) of
        None \<Rightarrow> (Inr (), s)
      | Some (pre, e, post) \<Rightarrow> commit pre (f e) post s)"

text \<open>
  A change made to the record \<open>h\<close> where it stands, before it is committed, and the
  commit of the record \<open>h\<close> as it stands.
\<close>

definition commit_at :: "DspId \<Rightarrow> DoubleSpendProofStorage \<Rightarrow> unit outcome" where
  "commit_at h s =
     (case split_at h (m_proofs s) of
        None \<Rightarrow> (Inr (), s)
      | Some (pre, e, post) \<Rightarrow> commit pre e post s)"

definition update_entry ::
  "DspId \<Rightarrow> (Entry \<Rightarrow> Entry) \<Rightarrow> DoubleSpendProofStorage \<Rightarrow> DoubleSpendProofStorage" where
  "update_entry h f s =
     s\<lparr>m_proofs := map (\<lambda>e. if entryId e = h then f e else e) (m_proofs s)\<rparr>"

subsection \<open>Orphan accounting and eviction\<close>

definition numOrphans :: "DoubleSpendProofStorage \<Rightarrow> nat" where
  "numOrphans s = m_numOrphans s"

definition maxOrphans :: "DoubleSpendProofStorage \<Rightarrow> nat" where
  "maxOrphans s = m_maxOrphans s"

definition setMaxOrphans :: "nat \<Rightarrow> DoubleSpendProofStorage \<Rightarrow> DoubleSpendProofStorage" where
  "setMaxOrphans mx s = s\<lparr>m_maxOrphans := mx\<rparr>"

definition secondsToKeepOrphans :: "DoubleSpendProofStorage \<Rightarrow> int" where
  "secondsToKeepOrphans s = m_secondsToKeepOrphans s"

definition setSecondsToKeepOrphans ::
  "int \<Rightarrow> DoubleSpendProofStorage \<Rightarrow> DoubleSpendProofStorage" where
  "setSecondsToKeepOrphans secs s =
     (if secs \<ge> 0 then s\<lparr>m_secondsToKeepOrphans := secs\<rparr> else s)"

definition decrementOrphans :: "nat \<Rightarrow> DoubleSpendProofStorage \<Rightarrow> unit outcome" where
  "decrementOrphans n s =
     (if n \<noteq> 0 then
        (if m_numOrphans s < n then (Inl (Thrown runtime_error), s)
         else (Inr (), s\<lparr>m_numOrphans := m_numOrphans s - n\<rparr>))
      else (Inr (), s))"

text \<open>
  \<open>size_t(m_maxOrphans * 1.25)\<close>. The limit is converted to double precision, the
  product is taken in double precision, and the result is converted back, which
  truncates. A double has 53 significant bits and both roundings are to the nearest
  double, ties to the even one: \<open>round_double n\<close> is the nearest double to the natural
  number \<open>n\<close>. The product of the double \<open>d\<close> and 1.25 is \<open>5 * d / 4\<close>, and rounding
  commutes with the division by 4, so \<open>round_double (5 * d)\<close> is the product in
  quarters. The conversion of a double that is not under \<open>2^64\<close> to \<open>size_t\<close> is
  undefined in C++; the model leaves its value unspecified.
\<close>

fun bitlen :: "nat \<Rightarrow> nat" where
  "bitlen n = (if n = 0 then 0 else Suc (bitlen (n div 2)))"

definition round_double :: "nat \<Rightarrow> nat" where
  "round_double n =
     (if n < 2 ^ 53 then n
      else (let e = bitlen n - 53; q = n div 2 ^ e; r = n mod 2 ^ e; half = 2 ^ (e - 1)
            in (if r < half \<or> (r = half \<and> even q) then q else q + 1) * 2 ^ e))"

definition highWaterMark :: "nat \<Rightarrow> nat" where
  "highWaterMark mx =
     (let quarters = round_double (5 * round_double mx)
      in if quarters div 4 < 2 ^ 64 then quarters div 4 else undefined)"

text \<open>
  The loop of \<open>checkOrphanLimit\<close>. The iterator stands between the records already
  passed (\<open>vis\<close>) and those to come; erasing the record under it leaves it on the next
  one. The counter of reaped records only feeds a debug log line and is left out.
\<close>

fun reap ::
  "DspId \<Rightarrow> nat \<Rightarrow> Entry list \<Rightarrow> Entry list \<Rightarrow> DoubleSpendProofStorage \<Rightarrow> unit outcome" where
  "reap dontDeleteHash low vis [] s = (Inr (), s)"
| "reap dontDeleteHash low vis (e # es) s =
     (if m_numOrphans s > low then
        (if orphan e \<and> dontDeleteHash \<noteq> entryId e then
           (case decrementOrphans 1 (s\<lparr>m_proofs := vis @ es\<rparr>) of
              (Inl err, s') \<Rightarrow> (Inl err, s')
            | (Inr _, s') \<Rightarrow> reap dontDeleteHash low vis es s')
         else reap dontDeleteHash low (vis @ [e]) es s)
      else (Inr (), s))"

definition checkOrphanLimit :: "DspId \<Rightarrow> DoubleSpendProofStorage \<Rightarrow> unit outcome" where
  "checkOrphanLimit dontDeleteHash s =
     (let highWater = highWaterMark (m_maxOrphans s);
          lowWater = m_maxOrphans s
      in if m_numOrphans s > highWater
         then reap dontDeleteHash lowWater [] (m_proofs s) s
         else (Inr (), s))"

definition incrementOrphans :: "nat \<Rightarrow> DspId \<Rightarrow> DoubleSpendProofStorage \<Rightarrow> unit outcome" where
  "incrementOrphans n dontDeleteHash s =
     (if n \<noteq> 0 then checkOrphanLimit dontDeleteHash (s\<lparr>m_numOrphans := m_numOrphans s + n\<rparr>)
      else (Inr (), s))"

subsection \<open>The public operations\<close>

definition add :: "DoubleSpendProof \<Rightarrow> DoubleSpendProofStorage \<Rightarrow> bool outcome" where
  "add p s =
     (if isEmpty p then (Inl (Thrown invalid_argument), s)
      else
        (case find_id (GetId p) (m_proofs s) of
           Some e \<Rightarrow>
             (if orphan e then
                bind_outcome (decrementOrphans 1 s) (\<lambda>_ s1.
                bind_outcome (modify (GetId p) (\<lambda>e. e\<lparr>orphan := False\<rparr>) s1) (\<lambda>_ s2.
                (Inr False, s2)))
              else (Inr False, s))
         | None \<Rightarrow> (Inr True, s\<lparr>m_proofs := emplace (Entry_new p) (m_proofs s)\<rparr>)))"

text \<open>
  \<open>addOrphan\<close>; \<open>now\<close> is what \<open>GetTime()\<close> returns. The modifier changes the record
  where it stands, so the sweep it starts sees the record with its new peer handle and
  time stamp, at its old place and with its old orphan flag; the record is committed to
  the indices when the modifier has returned.
\<close>

definition addOrphan ::
  "DoubleSpendProof \<Rightarrow> NodeId \<Rightarrow> int \<Rightarrow> DoubleSpendProofStorage \<Rightarrow> unit outcome" where
  "addOrphan p peer now s =
     bind_outcome (add p s) (\<lambda>_ s1.
       (case find_id (GetId p) (m_proofs s1) of
          None \<Rightarrow> (Inl AssertFailed, s1)
        | Some e \<Rightarrow>
            (let s2 = update_entry (GetId p)
                        (\<lambda>e. if nodeId e < 0 \<and> peer > - 1 then e\<lparr>nodeId := peer\<rparr> else e) s1;
                 s3 = update_entry (GetId p)
                        (\<lambda>e. if timeStamp e < 0 then e\<lparr>timeStamp := now\<rparr> else e) s2
             in bind_outcome (incrementOrphans (if orphan e then 0 else 1) (GetId p) s3) (\<lambda>_ s4.
                commit_at (GetId p) (update_entry (GetId p) (\<lambda>e. e\<lparr>orphan := True\<rparr>) s4)))))"

definition claimOrphan :: "DspId \<Rightarrow> DoubleSpendProofStorage \<Rightarrow> unit outcome" where
  "claimOrphan h s =
     (case find_id h (m_proofs s) of
        Some e \<Rightarrow>
          (if orphan e then
             bind_outcome (decrementOrphans 1 s) (\<lambda>_ s1.
             modify h (\<lambda>e. e\<lparr>orphan := False\<rparr>) s1)
           else (Inr (), s))
      | None \<Rightarrow> (Inr (), s))"

definition remove :: "DspId \<Rightarrow> DoubleSpendProofStorage \<Rightarrow> bool outcome" where
  "remove h s =
     (case find_id h (m_proofs s) of
        Some e \<Rightarrow>
          bind_outcome (decrementOrphans (if orphan e then 1 else 0) s) (\<lambda>_ s1.
          (Inr True, s1\<lparr>m_proofs := erase h (m_proofs s1)\<rparr>))
      | None \<Rightarrow> (Inr False, s))"

definition lookup :: "DspId \<Rightarrow> DoubleSpendProofStorage \<Rightarrow> DoubleSpendProof" where
  "lookup h s =
     (case find_id h (m_proofs s) of Some e \<Rightarrow> dsproof e | None \<Rightarrow> DoubleSpendProof_default)"

definition exists :: "DspId \<Rightarrow> DoubleSpendProofStorage \<Rightarrow> bool" where
  "exists h s = (find_id h (m_proofs s) \<noteq> None)"

definition isRecentlyRejectedProof :: "DspId \<Rightarrow> DoubleSpendProofStorage \<Rightarrow> bool" where
  "isRecentlyRejectedProof h s = filter_contains (m_recentRejects s) h"

definition markProofRejected :: "DspId \<Rightarrow> DoubleSpendProofStorage \<Rightarrow> DoubleSpendProofStorage" where
  "markProofRejected h s = s\<lparr>m_recentRejects := filter_insert h (m_recentRejects s)\<rparr>"

definition newBlockFound :: "DoubleSpendProofStorage \<Rightarrow> DoubleSpendProofStorage" where
  "newBlockFound s = s\<lparr>m_recentRejects := filter_reset (m_recentRejects s)\<rparr>"

definition size_storage :: "DoubleSpendProofStorage \<Rightarrow> nat" where
  "size_storage s = length (m_proofs s)"

definition clear :: "DoubleSpendProofStorage \<Rightarrow> DoubleSpendProofStorage" where
  "clear s = s\<lparr>m_proofs := [], m_recentRejects := filter_reset (m_recentRejects s),
               m_numOrphans := 0\<rparr>"

subsection \<open>Calls and runs\<close>

text \<open>
  A call of the public interface, and a run of calls on a store. A run goes on after a
  call that returns and after one that throws (the caller catches); it ends, with no
  store left, at a call that ends the process.
\<close>

datatype call =
    Add DoubleSpendProof
  | AddOrphan DoubleSpendProof NodeId int
  | ClaimOrphan DspId
  | Remove DspId
  | Clear
  | MarkProofRejected DspId
  | NewBlockFound
  | SetMaxOrphans nat
  | SetSecondsToKeepOrphans int

fun exec :: "call \<Rightarrow> DoubleSpendProofStorage \<Rightarrow> unit outcome" where
  "exec (Add p) s = bind_outcome (add p s) (\<lambda>_ s'. (Inr (), s'))"
| "exec (AddOrphan p peer now) s = addOrphan p peer now s"
| "exec (ClaimOrphan h) s = claimOrphan h s"
| "exec (Remove h) s = bind_outcome (remove h s) (\<lambda>_ s'. (Inr (), s'))"
| "exec Clear s = (Inr (), clear s)"
| "exec (MarkProofRejected h) s = (Inr (), markProofRejected h s)"
| "exec NewBlockFound s = (Inr (), newBlockFound s)"
| "exec (SetMaxOrphans mx) s = (Inr (), setMaxOrphans mx s)"
| "exec (SetSecondsToKeepOrphans secs) s = (Inr (), setSecondsToKeepOrphans secs s)"

fun survives :: "failure + 'a \<Rightarrow> bool" where
  "survives (Inl f) = catchable f"
| "survives (Inr _) = True"

fun run :: "call list \<Rightarrow> DoubleSpendProofStorage \<Rightarrow> DoubleSpendProofStorage option" where
  "run [] s = Some s"
| "run (c # cs) s =
     (case exec c s of (r, s') \<Rightarrow> if survives r then run cs s' else None)"

subsection \<open>Notions of the specification\<close>

text \<open>The number of stored records whose orphan flag is set.\<close>

definition countOrphans :: "DoubleSpendProofStorage \<Rightarrow> nat" where
  "countOrphans s = length (filter orphan (m_proofs s))"

text \<open>The time-stamp order, and the well-formedness of the index: one record per
  identity, in ascending order of time stamps.\<close>

definition sorted_ts :: "Entry list \<Rightarrow> bool" where
  "sorted_ts xs = sorted_wrt (\<lambda>a b. timeStamp a \<le> timeStamp b) xs"

definition index_ok :: "Entry list \<Rightarrow> bool" where
  "index_ok xs = (distinct (map entryId xs) \<and> sorted_ts xs)"

text \<open>
  The store is consistent when its index is well formed and the orphan counter is the
  number of records flagged as orphans.
\<close>

definition store_inv :: "DoubleSpendProofStorage \<Rightarrow> bool" where
  "store_inv s = (index_ok (m_proofs s) \<and> m_numOrphans s = countOrphans s)"

definition proofs_nonempty :: "DoubleSpendProofStorage \<Rightarrow> bool" where
  "proofs_nonempty s = list_all (\<lambda>e. \<not> isEmpty (dsproof e)) (m_proofs s)"

text \<open>
  What the specification says \<open>addOrphan\<close> makes of a record: the peer handle is
  adopted if none was stored and one is supplied, the time stamp is set if it was unset,
  and the record is an orphan.
\<close>

definition admitted :: "Entry \<Rightarrow> NodeId \<Rightarrow> int \<Rightarrow> Entry" where
  "admitted e peer now =
     e\<lparr>nodeId := (if nodeId e < 0 \<and> 0 \<le> peer then peer else nodeId e),
       timeStamp := (if timeStamp e < 0 then now else timeStamp e),
       orphan := True\<rparr>"

text \<open>What \<open>add\<close> leaves: the record of the proof, not an orphan.\<close>

definition added :: "DoubleSpendProof \<Rightarrow> DoubleSpendProofStorage \<Rightarrow> Entry" where
  "added p s = (case find_id (GetId p) (m_proofs s) of
                  None \<Rightarrow> Entry_new p
                | Some e \<Rightarrow> e\<lparr>orphan := False\<rparr>)"

text \<open>Three proofs and a fresh store with a given limit, for the examples.\<close>

definition proofA :: DoubleSpendProof where
  "proofA = \<lparr>GetId = 1, prevOut = (10, 0), isEmpty = False\<rparr>"

definition proofB :: DoubleSpendProof where
  "proofB = \<lparr>GetId = 2, prevOut = (10, 1), isEmpty = False\<rparr>"

definition proofC :: DoubleSpendProof where
  "proofC = \<lparr>GetId = 3, prevOut = (11, 0), isEmpty = False\<rparr>"

definition store0 :: "nat \<Rightarrow> DoubleSpendProofStorage" where
  "store0 mx = construct mx 90 (\<lambda>i h. h + i) \<lparr>k0 = 1, k1 = 2\<rparr> \<lparr>k0 = 3, k1 = 4\<rparr>"

text \<open>
  The store after \<open>proofA\<close> was admitted as an orphan, the store after \<open>proofB\<close> was
  admitted next, and a store whose counter has lost an orphan.
\<close>

definition storeA :: "nat \<Rightarrow> DoubleSpendProofStorage" where
  "storeA mx = (store0 mx)\<lparr>m_proofs := [admitted (Entry_new proofA) 7 100], m_numOrphans := 1\<rparr>"

definition storeAB :: "nat \<Rightarrow> DoubleSpendProofStorage" where
  "storeAB mx = (store0 mx)\<lparr>m_proofs := [admitted (Entry_new proofA) 7 100,
                                           admitted (Entry_new proofB) 8 101],
                             m_numOrphans := 2\<rparr>"

definition broken_example :: DoubleSpendProofStorage where
  "broken_example = (storeA 1)\<lparr>m_numOrphans := 0\<rparr>"

text \<open>
  A store in the middle of admitting \<open>proofC\<close>: two older orphans, the counter already
  incremented to 3, the limit 2.
\<close>

definition sweep_example :: DoubleSpendProofStorage where
  "sweep_example =
     (store0 2)\<lparr>m_proofs := [admitted (Entry_new proofA) 7 100,
                              admitted (Entry_new proofB) 8 101,
                              (Entry_new proofC)\<lparr>nodeId := 9, timeStamp := 102\<rparr>],
                m_numOrphans := 3\<rparr>"

text \<open>
  What the specification says of the sweep: a record can be evicted when it is an orphan
  and is not the record being admitted, and the sweep erases the first \<open>k\<close> such records
  of the time-stamp order.
\<close>

definition evictable :: "DspId \<Rightarrow> Entry \<Rightarrow> bool" where
  "evictable h e = (orphan e \<and> h \<noteq> entryId e)"

fun evict :: "DspId \<Rightarrow> nat \<Rightarrow> Entry list \<Rightarrow> Entry list" where
  "evict h k [] = []"
| "evict h k (e # es) =
     (if k = 0 then e # es
      else if evictable h e then evict h (k - 1) es
      else e # evict h k es)"

section \<open>Properties\<close>

subsection \<open>The recently-rejected filter and clear\<close>

lemma filter_contains_insert: "filter_contains (filter_insert h f) h"
  by (simp add: filter_contains_def filter_insert_def positions_def list_all_iff)

lemma filter_contains_reset: "\<not> filter_contains (filter_reset f) h"
  by (simp add: filter_contains_def filter_reset_def positions_def list_all_iff nHashFuncs_def)

text \<open>
  C8. After \<open>clear()\<close> the store holds no record, the orphan counter is 0 and no identity
  is reported as recently rejected, in particular not one marked rejected just before;
  the keys of both salted hashers are those the store had before.
\<close>

theorem clear_resets:
  "size_storage (clear s) = 0 \<and> numOrphans (clear s) = 0 \<and>
   \<not> isRecentlyRejectedProof x (clear (markProofRejected x s)) \<and>
   \<not> isRecentlyRejectedProof x (clear s) \<and>
   hasher_DspId (clear s) = hasher_DspId s \<and> hasher_COutPoint (clear s) = hasher_COutPoint s"
  by (simp add: size_storage_def numOrphans_def clear_def isRecentlyRejectedProof_def
      filter_contains_reset)

text \<open>
  C9. Right after \<open>markProofRejected(x)\<close> the identity \<open>x\<close> is reported as recently
  rejected; after \<open>newBlockFound()\<close> it is not.
\<close>

theorem rejected_filter_reset:
  "isRecentlyRejectedProof x (markProofRejected x s) \<and>
   \<not> isRecentlyRejectedProof x (newBlockFound (markProofRejected x s)) \<and>
   \<not> isRecentlyRejectedProof x (newBlockFound s)"
  by (simp add: isRecentlyRejectedProof_def markProofRejected_def newBlockFound_def
      filter_contains_insert filter_contains_reset)

subsection \<open>The record index: finding, splitting, linking\<close>

lemma bind_outcome_Inl [simp]: "bind_outcome (Inl err, s) f = (Inl err, s)"
  by (simp add: bind_outcome_def)

lemma bind_outcome_Inr [simp]: "bind_outcome (Inr a, s) f = f a s"
  by (simp add: bind_outcome_def)

lemma find_id_Nil [simp]: "find_id h [] = None"
  by (simp add: find_id_def)

lemma find_id_Cons [simp]:
  "find_id h (x # xs) = (if entryId x = h then Some x else find_id h xs)"
  by (simp add: find_id_def)

lemma find_id_append:
  "find_id h (xs @ ys) = (case find_id h xs of None \<Rightarrow> find_id h ys | Some e \<Rightarrow> Some e)"
  by (induction xs) auto

lemma find_id_None_iff: "find_id h xs = None \<longleftrightarrow> h \<notin> entryId ` set xs"
  by (induction xs) auto

lemma find_id_SomeD: "find_id h xs = Some e \<Longrightarrow> e \<in> set xs \<and> entryId e = h"
  by (induction xs) (auto split: if_splits)

lemma split_at_None_iff: "split_at h xs = None \<longleftrightarrow> find_id h xs = None"
  by (induction xs) (auto split: option.splits)

lemma split_at_SomeD:
  "split_at h xs = Some (pre, e, post) \<Longrightarrow>
     xs = pre @ e # post \<and> entryId e = h \<and> find_id h pre = None \<and> find_id h xs = Some e"
  by (induction xs arbitrary: pre) (auto split: if_splits option.splits)

lemma split_at_find_Some:
  "find_id h xs = Some e \<Longrightarrow> \<exists>pre post. split_at h xs = Some (pre, e, post)"
  by (induction xs) (auto split: if_splits option.splits)

lemma split_at_distinct:
  "split_at h xs = Some (pre, e, post) \<Longrightarrow> distinct (map entryId xs) \<Longrightarrow>
     find_id h (pre @ post) = None"
  by (auto dest!: split_at_SomeD simp: find_id_None_iff)


lemma evict_0 [simp]: "evict h 0 xs = xs"
  by (cases xs) auto

lemma reap_Cons:
  "reap h low vis (e # es) s =
     (if m_numOrphans s > low then
        (if evictable h e then
           bind_outcome (decrementOrphans 1 (s\<lparr>m_proofs := vis @ es\<rparr>)) (\<lambda>_. reap h low vis es)
         else reap h low (vis @ [e]) es s)
      else (Inr (), s))"
  by (simp add: evictable_def bind_outcome_def split: prod.splits sum.splits)

declare reap.simps(2) [simp del]

lemma reap_eq:
  "m_proofs s = vis @ xs \<Longrightarrow>
   reap h low vis xs s =
     (Inr (), s\<lparr>m_proofs := vis @ evict h (m_numOrphans s - low) xs,
               m_numOrphans := m_numOrphans s -
                  min (m_numOrphans s - low) (length (filter (evictable h) xs))\<rparr>)"
proof (induction xs arbitrary: vis s)
  case Nil
  then show ?case by simp
next
  case (Cons e es)
  show ?case
  proof (cases "m_numOrphans s > low")
    case False
    with Cons.prems show ?thesis by (simp add: reap_Cons)
  next
    case True
    show ?thesis
    proof (cases "evictable h e")
      case ev: True
      let ?s' = "s\<lparr>m_proofs := vis @ es, m_numOrphans := m_numOrphans s - 1\<rparr>"
      have d: "decrementOrphans 1 (s\<lparr>m_proofs := vis @ es\<rparr>) = (Inr (), ?s')"
        using True by (simp add: decrementOrphans_def)
      have "reap h low vis (e # es) s = reap h low vis es ?s'"
        using True ev d by (simp add: reap_Cons)
      also have "\<dots> = (Inr (), ?s'\<lparr>m_proofs := vis @ evict h (m_numOrphans ?s' - low) es,
               m_numOrphans := m_numOrphans ?s' -
                  min (m_numOrphans ?s' - low) (length (filter (evictable h) es))\<rparr>)"
        by (rule Cons.IH) simp
      finally show ?thesis using True ev by (simp add: min_def)
    next
      case nev: False
      have "reap h low vis (e # es) s = reap h low (vis @ [e]) es s"
        using True nev by (simp add: reap_Cons)
      also have "\<dots> = (Inr (), s\<lparr>m_proofs := (vis @ [e]) @ evict h (m_numOrphans s - low) es,
               m_numOrphans := m_numOrphans s -
                  min (m_numOrphans s - low) (length (filter (evictable h) es))\<rparr>)"
        by (rule Cons.IH) (simp add: Cons.prems)
      finally show ?thesis using True nev by simp
    qed
  qed
qed

lemma find_id_evict: "find_id h (evict h k xs) = find_id h xs"
  by (induction xs arbitrary: k) (auto simp: evictable_def)


lemma set_evict: "set (evict h k xs) \<subseteq> set xs"
  by (induction xs arbitrary: k) auto

lemma distinct_evict: "distinct (map entryId xs) \<Longrightarrow> distinct (map entryId (evict h k xs))"
  using set_evict by (induction xs arbitrary: k) (auto, blast)

lemma evictable_orphan: "evictable h e \<Longrightarrow> orphan e"
  by (simp add: evictable_def)

lemma count_evictable_le: "length (filter (evictable h) xs) \<le> length (filter orphan xs)"
  by (induction xs) (auto simp: evictable_def)

lemma count_orphan_evict:
  "length (filter orphan (evict h k xs)) =
     length (filter orphan xs) - min k (length (filter (evictable h) xs))"
proof (induction xs arbitrary: k)
  case Nil
  then show ?case by simp
next
  case (Cons e es)
  have le: "length (filter (evictable h) es) \<le> length (filter orphan es)"
    by (rule count_evictable_le)
  show ?case
  proof (cases "k = 0")
    case True
    then show ?thesis by simp
  next
    case False
    then obtain j where k: "k = Suc j" by (cases k) auto
    show ?thesis using le Cons.IH [of j] Cons.IH [of k] k
      by (cases "evictable h e"; cases "orphan e")
         (auto simp: min_def dest: evictable_orphan)
  qed
qed

lemma sorted_wrt_evict: "sorted_wrt R xs \<Longrightarrow> sorted_wrt R (evict h k xs)"
  using set_evict by (induction xs arbitrary: k) (auto, blast)

lemma filter_evict:
  "filter (\<lambda>x. entryId x \<noteq> h) (evict h k xs) = evict h k (filter (\<lambda>x. entryId x \<noteq> h) xs)"
  by (induction xs arbitrary: k) (auto simp: evictable_def)


subsection \<open>Linking and committing\<close>

lemma link_split: "\<exists>a b. xs = a @ b \<and> link e xs = a @ e # b"
  unfolding link_def
  by (metis takeWhile_dropWhile_id)

lemma sorted_ts_Nil [simp]: "sorted_ts []"
  by (simp add: sorted_ts_def)

lemma sorted_ts_link: "sorted_ts xs \<Longrightarrow> sorted_ts (link e xs)"
proof (induction xs)
  case Nil
  then show ?case by (simp add: link_def sorted_ts_def)
next
  case (Cons x xs)
  then show ?case
    by (auto simp: link_def sorted_ts_def dest: set_takeWhileD set_dropWhileD)
qed

lemma sorted_ts_last: "sorted_ts xs \<Longrightarrow> x \<in> set xs \<Longrightarrow> timeStamp x \<le> timeStamp (last xs)"
  by (induction xs) (auto simp: sorted_ts_def)

lemma sorted_ts_hd: "sorted_ts xs \<Longrightarrow> x \<in> set xs \<Longrightarrow> timeStamp (hd xs) \<le> timeStamp x"
  by (cases xs) (auto simp: sorted_ts_def)

lemma sorted_ts_append:
  "sorted_ts (xs @ ys) \<longleftrightarrow>
     sorted_ts xs \<and> sorted_ts ys \<and> (\<forall>x\<in>set xs. \<forall>y\<in>set ys. timeStamp x \<le> timeStamp y)"
  by (simp add: sorted_ts_def sorted_wrt_append)

lemma sorted_ts_Cons:
  "sorted_ts (x # xs) \<longleftrightarrow> sorted_ts xs \<and> (\<forall>y\<in>set xs. timeStamp x \<le> timeStamp y)"
  by (auto simp: sorted_ts_def)

lemma sorted_ts_in_place:
  assumes "sorted_ts (pre @ post)" and "in_place pre e post"
  shows "sorted_ts (pre @ e # post)"
proof -
  have pre: "sorted_ts pre" and post: "sorted_ts post"
    using assms(1) by (simp_all add: sorted_ts_append)
  have a: "\<forall>x\<in>set pre. timeStamp x \<le> timeStamp e"
  proof
    fix x assume x: "x \<in> set pre"
    then have "pre \<noteq> []" by auto
    with assms(2) have "timeStamp (last pre) \<le> timeStamp e" by (simp add: in_place_def)
    with sorted_ts_last [OF pre x] show "timeStamp x \<le> timeStamp e" by simp
  qed
  have b: "\<forall>y\<in>set post. timeStamp e \<le> timeStamp y"
  proof
    fix y assume y: "y \<in> set post"
    then have "post \<noteq> []" by auto
    with assms(2) have "timeStamp e \<le> timeStamp (hd post)" by (simp add: in_place_def)
    with sorted_ts_hd [OF post y] show "timeStamp e \<le> timeStamp y" by simp
  qed
  show ?thesis
    using assms(1) a b by (simp add: sorted_ts_append sorted_ts_Cons)
qed

lemma in_place_sorted:
  "sorted_ts (pre @ e # post) \<Longrightarrow> timeStamp e' = timeStamp e \<Longrightarrow> in_place pre e' post"
  by (cases post; cases pre rule: rev_cases)
     (auto simp: in_place_def sorted_ts_append sorted_ts_Cons)

lemma commit_ok:
  assumes "find_id (entryId e) (pre @ post) = None"
  shows "\<exists>a b. commit pre e post s = (Inr (), s\<lparr>m_proofs := a @ e # b\<rparr>) \<and> a @ b = pre @ post \<and>
           (sorted_ts (pre @ post) \<longrightarrow> sorted_ts (a @ e # b))"
proof (cases "in_place pre e post")
  case True
  then have "commit pre e post s = (Inr (), s\<lparr>m_proofs := pre @ e # post\<rparr>)"
    using assms by (simp add: commit_def)
  with True show ?thesis
    using sorted_ts_in_place by blast
next
  case False
  obtain a b where ab: "pre @ post = a @ b" "link e (pre @ post) = a @ e # b"
    using link_split by blast
  have "commit pre e post s = (Inr (), s\<lparr>m_proofs := a @ e # b\<rparr>)"
    using assms False ab by (simp add: commit_def)
  moreover have "sorted_ts (pre @ post) \<longrightarrow> sorted_ts (a @ e # b)"
    using sorted_ts_link [of "pre @ post" e] ab by simp
  ultimately show ?thesis using ab by auto
qed

lemma update_split:
  assumes "split_at h xs = Some (pre, e, post)" and "distinct (map entryId xs)"
  shows "map (\<lambda>x. if entryId x = h then f x else x) xs = pre @ f e # post"
proof -
  from split_at_SomeD [OF assms(1)] have xs: "xs = pre @ e # post" and h: "entryId e = h"
    by simp_all
  have "\<forall>x\<in>set pre \<union> set post. entryId x \<noteq> h"
    using assms(2) h unfolding xs by (auto simp: image_iff)
  then have "map (\<lambda>x. if entryId x = h then f x else x) pre = pre"
    and "map (\<lambda>x. if entryId x = h then f x else x) post = post"
    by (simp_all add: map_idI)
  then show ?thesis using h by (simp add: xs)
qed

lemma update_absent:
  "find_id h xs = None \<Longrightarrow> map (\<lambda>x. if entryId x = h then f x else x) xs = xs"
  by (rule map_idI) (auto simp: find_id_None_iff)

text \<open>A modifier that keeps identity and time stamp is committed where the record stands.\<close>

lemma modify_in_place:
  assumes "index_ok (m_proofs s)"
    and "\<And>e. entryId (f e) = entryId e" and "\<And>e. timeStamp (f e) = timeStamp e"
  shows "modify h f s = (Inr (), update_entry h f s)"
proof (cases "split_at h (m_proofs s)")
  case None
  then have "find_id h (m_proofs s) = None" by (simp add: split_at_None_iff)
  then show ?thesis using None by (simp add: modify_def update_entry_def update_absent)
next
  case (Some t)
  then obtain pre e post where sp: "split_at h (m_proofs s) = Some (pre, e, post)"
    by (cases t) auto
  have d: "distinct (map entryId (m_proofs s))" and so: "sorted_ts (m_proofs s)"
    using assms(1) by (simp_all add: index_ok_def)
  from split_at_SomeD [OF sp] have xs: "m_proofs s = pre @ e # post" and h: "entryId e = h"
    by simp_all
  have "find_id (entryId (f e)) (pre @ post) = None"
    using split_at_distinct [OF sp d] h assms(2) by simp
  moreover have "in_place pre (f e) post"
    using so assms(3) unfolding xs by (rule in_place_sorted)
  ultimately have "commit pre (f e) post s = (Inr (), s\<lparr>m_proofs := pre @ f e # post\<rparr>)"
    by (simp add: commit_def)
  then show ?thesis
    using sp update_split [OF sp d, of f] by (simp add: modify_def update_entry_def)
qed


subsection \<open>Updating a record where it stands\<close>

lemma split_at_filter:
  assumes "split_at h xs = Some (pre, e, post)" and "distinct (map entryId xs)"
  shows "pre @ post = filter (\<lambda>x. entryId x \<noteq> h) xs"
proof -
  from split_at_SomeD [OF assms(1)] have xs: "xs = pre @ e # post" and h: "entryId e = h"
    by simp_all
  have "\<forall>x\<in>set pre \<union> set post. entryId x \<noteq> h"
    using assms(2) h unfolding xs by (auto simp: image_iff)
  then have "filter (\<lambda>x. entryId x \<noteq> h) pre = pre" "filter (\<lambda>x. entryId x \<noteq> h) post = post"
    by (simp_all add: filter_id_conv)
  then show ?thesis using h by (simp add: xs)
qed

lemma split_at_append:
  "find_id h a = None \<Longrightarrow> entryId e = h \<Longrightarrow> split_at h (a @ e # b) = Some (a, e, b)"
  by (induction a) (auto split: if_splits)

lemma count_evictable_others:
  "length (filter (evictable h) xs) = length (filter orphan (filter (\<lambda>x. entryId x \<noteq> h) xs))"
  by (induction xs) (auto simp: evictable_def)

lemma find_id_others:
  "find_id h' (filter (\<lambda>x. entryId x \<noteq> h) xs) = (if h' = h then None else find_id h' xs)"
  by (induction xs) auto

lemma find_id_insert:
  "find_id h' (a @ e # b) =
     (case find_id h' a of Some x \<Rightarrow> Some x
      | None \<Rightarrow> if entryId e = h' then Some e else find_id h' b)"
  by (induction a) auto

subsection \<open>The operations on a consistent store\<close>

lemma store_invD:
  "store_inv s \<Longrightarrow> distinct (map entryId (m_proofs s))"
  "store_inv s \<Longrightarrow> sorted_ts (m_proofs s)"
  "store_inv s \<Longrightarrow> index_ok (m_proofs s)"
  "store_inv s \<Longrightarrow> m_numOrphans s = length (filter orphan (m_proofs s))"
  by (simp_all add: store_inv_def index_ok_def countOrphans_def)

lemma orphan_counted:
  "find_id h xs = Some e \<Longrightarrow> orphan e \<Longrightarrow> 0 < length (filter orphan xs)"
  by (auto dest!: find_id_SomeD simp: filter_empty_conv)

lemma add_empty: "isEmpty p \<Longrightarrow> add p s = (Inl (Thrown invalid_argument), s)"
  by (simp add: add_def)

lemma add_new:
  "\<not> isEmpty p \<Longrightarrow> find_id (GetId p) (m_proofs s) = None \<Longrightarrow>
     add p s = (Inr True, s\<lparr>m_proofs := link (Entry_new p) (m_proofs s)\<rparr>)"
  by (simp add: add_def emplace_def Entry_new_def)

lemma add_known:
  "\<not> isEmpty p \<Longrightarrow> find_id (GetId p) (m_proofs s) = Some e \<Longrightarrow> \<not> orphan e \<Longrightarrow>
     add p s = (Inr False, s)"
  by (simp add: add_def)

lemma add_orphan:
  assumes "store_inv s" and "\<not> isEmpty p" and "find_id (GetId p) (m_proofs s) = Some e"
    and "orphan e"
  shows "add p s = (Inr False, update_entry (GetId p) (\<lambda>e. e\<lparr>orphan := False\<rparr>)
                      (s\<lparr>m_numOrphans := m_numOrphans s - 1\<rparr>))"
proof -
  have "0 < m_numOrphans s"
    using orphan_counted [OF assms(3,4)] store_invD(4) [OF assms(1)] by simp
  then have d: "decrementOrphans 1 s = (Inr (), s\<lparr>m_numOrphans := m_numOrphans s - 1\<rparr>)"
    by (simp add: decrementOrphans_def)
  have m: "modify (GetId p) (\<lambda>e. e\<lparr>orphan := False\<rparr>) (s\<lparr>m_numOrphans := m_numOrphans s - 1\<rparr>) =
      (Inr (), update_entry (GetId p) (\<lambda>e. e\<lparr>orphan := False\<rparr>)
                 (s\<lparr>m_numOrphans := m_numOrphans s - 1\<rparr>))"
    by (rule modify_in_place) (simp_all add: store_invD(3) [OF assms(1)])
  show ?thesis using assms(2,3,4) d m by (simp add: add_def)
qed


lemma count_update:
  assumes "find_id h xs = Some e" and "distinct (map entryId xs)"
  shows "length (filter orphan (map (\<lambda>x. if entryId x = h then f x else x) xs)) +
           (if orphan e then 1 else 0) =
         length (filter orphan xs) + (if orphan (f e) then 1 else 0)"
proof -
  obtain pre post where sp: "split_at h xs = Some (pre, e, post)"
    using split_at_find_Some [OF assms(1)] by blast
  from split_at_SomeD [OF sp] have xs: "xs = pre @ e # post" by simp
  show ?thesis
    unfolding update_split [OF sp assms(2)] by (simp add: xs)
qed

lemma ids_update:
  "(\<And>e. entryId (f e) = entryId e) \<Longrightarrow>
     map entryId (map (\<lambda>x. if entryId x = h then f x else x) xs) = map entryId xs"
  by (induction xs) auto

lemma sorted_ts_update:
  "(\<And>e. timeStamp (f e) = timeStamp e) \<Longrightarrow> sorted_ts xs \<Longrightarrow>
     sorted_ts (map (\<lambda>x. if entryId x = h then f x else x) xs)"
  by (induction xs) (auto simp: sorted_ts_Cons)

lemma find_id_update:
  "(\<And>e. entryId (f e) = entryId e) \<Longrightarrow>
     find_id h' (map (\<lambda>x. if entryId x = h then f x else x) xs) =
       map_option (\<lambda>x. if h' = h then f x else x) (find_id h' xs)"
  by (induction xs) auto

lemma store_inv_unflag:
  assumes "store_inv s" and "find_id h (m_proofs s) = Some e" and "orphan e"
  shows "store_inv (update_entry h (\<lambda>e. e\<lparr>orphan := False\<rparr>)
                      (s\<lparr>m_numOrphans := m_numOrphans s - 1\<rparr>))"
proof -
  have c: "length (filter orphan (map (\<lambda>x. if entryId x = h then x\<lparr>orphan := False\<rparr> else x)
             (m_proofs s))) + 1 = length (filter orphan (m_proofs s))"
    using count_update [OF assms(2) store_invD(1) [OF assms(1)], of "\<lambda>e. e\<lparr>orphan := False\<rparr>"]
      assms(3) by simp
  show ?thesis
    using assms(1) c
    by (simp add: store_inv_def index_ok_def countOrphans_def update_entry_def ids_update
        sorted_ts_update del: map_map filter_map)
qed

lemma store_inv_link:
  assumes "store_inv s" and "find_id (entryId e) (m_proofs s) = None" and "\<not> orphan e"
  shows "store_inv (s\<lparr>m_proofs := link e (m_proofs s)\<rparr>)"
proof -
  obtain a b where ab: "m_proofs s = a @ b" "link e (m_proofs s) = a @ e # b"
    using link_split by blast
  have "entryId e \<notin> entryId ` set (a @ b)"
    using assms(2) ab(1) by (simp add: find_id_None_iff)
  then have "distinct (map entryId (a @ e # b))"
    using store_invD(1) [OF assms(1)] unfolding ab(1) by auto
  moreover have "sorted_ts (link e (m_proofs s))"
    using store_invD(2) [OF assms(1)] by (rule sorted_ts_link)
  ultimately show ?thesis
    using assms(1,3) ab by (simp add: store_inv_def index_ok_def countOrphans_def)
qed

lemma add_store_inv:
  assumes "store_inv s"
  shows "store_inv (snd (add p s))"
proof (cases "isEmpty p")
  case True
  then show ?thesis using assms by (simp add: add_empty)
next
  case ne: False
  show ?thesis
  proof (cases "find_id (GetId p) (m_proofs s)")
    case None
    have "store_inv (s\<lparr>m_proofs := link (Entry_new p) (m_proofs s)\<rparr>)"
      by (rule store_inv_link [OF assms]) (simp_all add: Entry_new_def None)
    then show ?thesis by (simp add: add_new [OF ne None])
  next
    case (Some e)
    show ?thesis
    proof (cases "orphan e")
      case True
      show ?thesis
        using store_inv_unflag [OF assms Some True]
        by (simp add: add_orphan [OF assms ne Some True])
    next
      case False
      show ?thesis by (simp add: add_known [OF ne Some False] assms)
    qed
  qed
qed

lemma claimOrphan_eq:
  assumes "store_inv s"
  shows "claimOrphan h s =
     (Inr (), case find_id h (m_proofs s) of
                None \<Rightarrow> s
              | Some e \<Rightarrow> if orphan e
                  then update_entry h (\<lambda>e. e\<lparr>orphan := False\<rparr>)
                         (s\<lparr>m_numOrphans := m_numOrphans s - 1\<rparr>)
                  else s)"
proof (cases "find_id h (m_proofs s)")
  case None
  then show ?thesis by (simp add: claimOrphan_def)
next
  case (Some e)
  show ?thesis
  proof (cases "orphan e")
    case False
    then show ?thesis using Some by (simp add: claimOrphan_def)
  next
    case True
    have "0 < m_numOrphans s"
      using orphan_counted [OF Some True] store_invD(4) [OF assms] by simp
    then have d: "decrementOrphans 1 s = (Inr (), s\<lparr>m_numOrphans := m_numOrphans s - 1\<rparr>)"
      by (simp add: decrementOrphans_def)
    have m: "modify h (\<lambda>e. e\<lparr>orphan := False\<rparr>) (s\<lparr>m_numOrphans := m_numOrphans s - 1\<rparr>) =
        (Inr (), update_entry h (\<lambda>e. e\<lparr>orphan := False\<rparr>)
                   (s\<lparr>m_numOrphans := m_numOrphans s - 1\<rparr>))"
      by (rule modify_in_place) (simp_all add: store_invD(3) [OF assms])
    show ?thesis using Some True d m by (simp add: claimOrphan_def)
  qed
qed

lemma claimOrphan_store_inv:
  assumes "store_inv s"
  shows "store_inv (snd (claimOrphan h s))"
  using assms store_inv_unflag [OF assms]
  by (auto simp: claimOrphan_eq [OF assms] split: option.splits)


lemma erase_eq:
  "distinct (map entryId xs) \<Longrightarrow> erase h xs = filter (\<lambda>x. entryId x \<noteq> h) xs"
proof (cases "split_at h xs")
  case None
  then have "find_id h xs = None" by (simp add: split_at_None_iff)
  then have "filter (\<lambda>x. entryId x \<noteq> h) xs = xs"
    by (auto simp: filter_id_conv find_id_None_iff)
  then show ?thesis using None by (simp add: erase_def)
next
  case (Some t)
  assume d: "distinct (map entryId xs)"
  obtain pre e post where sp: "split_at h xs = Some (pre, e, post)"
    using Some by (cases t) auto
  show ?thesis using split_at_filter [OF sp d] sp by (simp add: erase_def)
qed

lemma sorted_ts_filter: "sorted_ts xs \<Longrightarrow> sorted_ts (filter P xs)"
  by (simp add: sorted_ts_def sorted_wrt_filter)

lemma count_others:
  assumes "find_id h xs = Some e" and "distinct (map entryId xs)"
  shows "length (filter orphan (filter (\<lambda>x. entryId x \<noteq> h) xs)) + (if orphan e then 1 else 0) =
         length (filter orphan xs)"
proof -
  obtain pre post where sp: "split_at h xs = Some (pre, e, post)"
    using split_at_find_Some [OF assms(1)] by blast
  from split_at_SomeD [OF sp] have xs: "xs = pre @ e # post" by simp
  have "length (filter orphan (pre @ post)) + (if orphan e then 1 else 0) =
         length (filter orphan (pre @ e # post))"
    by simp
  then show ?thesis
    unfolding split_at_filter [OF sp assms(2), symmetric] xs [symmetric] .
qed

lemma remove_eq:
  assumes "store_inv s"
  shows "remove h s =
     (case find_id h (m_proofs s) of
        None \<Rightarrow> (Inr False, s)
      | Some e \<Rightarrow> (Inr True, s\<lparr>m_numOrphans := m_numOrphans s - (if orphan e then 1 else 0),
                              m_proofs := filter (\<lambda>x. entryId x \<noteq> h) (m_proofs s)\<rparr>))"
proof (cases "find_id h (m_proofs s)")
  case None
  then show ?thesis by (simp add: remove_def)
next
  case (Some e)
  have "orphan e \<Longrightarrow> 0 < m_numOrphans s"
    using orphan_counted [OF Some] store_invD(4) [OF assms] by simp
  then have "decrementOrphans (if orphan e then 1 else 0) s =
      (Inr (), s\<lparr>m_numOrphans := m_numOrphans s - (if orphan e then 1 else 0)\<rparr>)"
    by (simp add: decrementOrphans_def)
  then show ?thesis
    using Some erase_eq [OF store_invD(1) [OF assms], of h] by (simp add: remove_def)
qed

lemma remove_store_inv:
  assumes "store_inv s"
  shows "store_inv (snd (remove h s))"
proof (cases "find_id h (m_proofs s)")
  case None
  then show ?thesis using assms by (simp add: remove_eq [OF assms])
next
  case (Some e)
  have c: "length (filter orphan (filter (\<lambda>x. entryId x \<noteq> h) (m_proofs s))) =
      m_numOrphans s - (if orphan e then 1 else 0)"
    using count_others [OF Some store_invD(1) [OF assms]] store_invD(4) [OF assms] by simp
  show ?thesis
    using Some c store_invD(1,2) [OF assms]
    by (simp add: remove_eq [OF assms] store_inv_def index_ok_def countOrphans_def
        distinct_map_filter sorted_ts_filter del: filter_filter)
qed


text \<open>The sweep threshold: how far the sweep started by an increment may reach.\<close>

lemma checkOrphanLimit_eq:
  "checkOrphanLimit h s =
     (Inr (), s\<lparr>m_proofs := evict h (if highWaterMark (m_maxOrphans s) < m_numOrphans s
                                        then m_numOrphans s - m_maxOrphans s else 0) (m_proofs s),
               m_numOrphans := m_numOrphans s -
                 min (if highWaterMark (m_maxOrphans s) < m_numOrphans s
                      then m_numOrphans s - m_maxOrphans s else 0)
                     (length (filter (evictable h) (m_proofs s)))\<rparr>)"
proof (cases "highWaterMark (m_maxOrphans s) < m_numOrphans s")
  case True
  have "reap h (m_maxOrphans s) [] (m_proofs s) s =
     (Inr (), s\<lparr>m_proofs := [] @ evict h (m_numOrphans s - m_maxOrphans s) (m_proofs s),
               m_numOrphans := m_numOrphans s -
                  min (m_numOrphans s - m_maxOrphans s)
                      (length (filter (evictable h) (m_proofs s)))\<rparr>)"
    by (rule reap_eq) simp
  with True show ?thesis by (simp add: checkOrphanLimit_def)
next
  case False
  then show ?thesis by (simp add: checkOrphanLimit_def)
qed

lemma addOrphan_after_add:
  fixes peer :: NodeId and now :: int
  assumes ad: "add p s = (Inr r, s1)" and inv: "store_inv s1"
    and fi: "find_id (GetId p) (m_proofs s1) = Some e" and no: "\<not> orphan e"
  defines "kk \<equiv> (if highWaterMark (m_maxOrphans s1) < m_numOrphans s1 + 1
                  then m_numOrphans s1 + 1 - m_maxOrphans s1 else 0)"
  shows "\<exists>a b. addOrphan p peer now s =
            (Inr (), s1\<lparr>m_proofs := a @ admitted e peer now # b,
                        m_numOrphans := m_numOrphans s1 + 1 - min kk (m_numOrphans s1)\<rparr>) \<and>
          a @ b = evict (GetId p) kk (filter (\<lambda>x. entryId x \<noteq> GetId p) (m_proofs s1)) \<and>
          sorted_ts (a @ admitted e peer now # b)"
proof -
  let ?h = "GetId p"
  define f1 where "f1 = (\<lambda>e::Entry. if nodeId e < 0 \<and> peer > - 1 then e\<lparr>nodeId := peer\<rparr> else e)"
  define f2 where "f2 = (\<lambda>e::Entry. if timeStamp e < 0 then e\<lparr>timeStamp := now\<rparr> else e)"
  define e1 where "e1 = f2 (f1 e)"
  define e2 where "e2 = e1\<lparr>orphan := True\<rparr>"
  have d1: "distinct (map entryId (m_proofs s1))" by (rule store_invD(1) [OF inv])
  obtain pre post where sp: "split_at ?h (m_proofs s1) = Some (pre, e, post)"
    using split_at_find_Some [OF fi] by blast
  from split_at_SomeD [OF sp] have xs: "m_proofs s1 = pre @ e # post" and he: "entryId e = ?h"
    and npre: "find_id ?h pre = None"
    by simp_all
  have others: "pre @ post = filter (\<lambda>x. entryId x \<noteq> ?h) (m_proofs s1)"
    by (rule split_at_filter [OF sp d1])
  have he1: "entryId e1 = ?h" and he2: "entryId e2 = ?h"
    using he by (simp_all add: e1_def e2_def f1_def f2_def)
  have e2: "e2 = admitted e peer now"
    by (simp add: e2_def e1_def f1_def f2_def admitted_def)
  \<comment> \<open>the record with its new peer handle and time stamp, where it stood\<close>
  define s3 where "s3 = update_entry ?h f2 (update_entry ?h f1 s1)"
  have u1: "m_proofs (update_entry ?h f1 s1) = pre @ f1 e # post"
    using update_split [OF sp d1, of f1] by (simp add: update_entry_def)
  have sp1: "split_at ?h (pre @ f1 e # post) = Some (pre, f1 e, post)"
    using npre he by (intro split_at_append) (simp_all add: f1_def)
  have d1': "distinct (map entryId (pre @ f1 e # post))"
  proof -
    have "map entryId (pre @ f1 e # post) = map entryId (pre @ e # post)"
      by (simp add: f1_def)
    then show ?thesis using d1 xs by simp
  qed
  have m3: "m_proofs s3 = pre @ e1 # post"
    using update_split [OF sp1 d1', of f2] u1 by (simp add: s3_def update_entry_def e1_def)
  have s3: "s3 = s1\<lparr>m_proofs := pre @ e1 # post\<rparr>"
    using m3 by (simp add: s3_def update_entry_def)
  have d3: "distinct (map entryId (pre @ e1 # post))"
  proof -
    have "map entryId (pre @ e1 # post) = map entryId (pre @ e # post)"
      using he he1 by simp
    then show ?thesis using d1 xs by simp
  qed
  have fo: "filter (\<lambda>x. entryId x \<noteq> ?h) (pre @ e1 # post) = pre @ post"
    using others he he1 by (simp add: xs)
  \<comment> \<open>the increment and its sweep\<close>
  have cnt: "length (filter orphan (pre @ post)) = m_numOrphans s1"
    using store_invD(4) [OF inv] no by (simp add: xs)
  have ev: "length (filter (evictable ?h) (pre @ e1 # post)) = m_numOrphans s1"
    unfolding count_evictable_others fo by (rule cnt)
  define s4 where "s4 = s1\<lparr>m_proofs := evict ?h kk (pre @ e1 # post),
      m_numOrphans := m_numOrphans s1 + 1 - min kk (m_numOrphans s1)\<rparr>"
  have inc: "incrementOrphans (if orphan e then 0 else 1) ?h s3 = (Inr (), s4)"
    using no ev
    by (simp add: incrementOrphans_def checkOrphanLimit_eq s3 s4_def kk_def)
  \<comment> \<open>the flag, and the commit\<close>
  have f4: "find_id ?h (evict ?h kk (pre @ e1 # post)) = Some e1"
    using npre he1 by (simp add: find_id_evict find_id_insert)
  obtain a0 b0 where sp4: "split_at ?h (evict ?h kk (pre @ e1 # post)) = Some (a0, e1, b0)"
    using split_at_find_Some [OF f4] by blast
  have d4: "distinct (map entryId (evict ?h kk (pre @ e1 # post)))"
    by (rule distinct_evict [OF d3])
  have ab0: "a0 @ b0 = evict ?h kk (pre @ post)"
    using split_at_filter [OF sp4 d4] unfolding filter_evict fo .
  have na0: "find_id ?h a0 = None"
    using split_at_SomeD [OF sp4] by simp
  define s5 where "s5 = update_entry ?h (\<lambda>e. e\<lparr>orphan := True\<rparr>) s4"
  have m5: "m_proofs s5 = a0 @ e2 # b0"
    using update_split [OF sp4 d4, of "\<lambda>e. e\<lparr>orphan := True\<rparr>"]
    by (simp add: s5_def s4_def update_entry_def e2_def)
  have sp5: "split_at ?h (m_proofs s5) = Some (a0, e2, b0)"
    unfolding m5 by (rule split_at_append [OF na0 he2])
  have nab: "find_id (entryId e2) (a0 @ b0) = None"
    unfolding ab0 he2 others filter_evict [symmetric] by (simp add: find_id_others)
  have so: "sorted_ts (a0 @ b0)"
    unfolding ab0 others sorted_ts_def
    by (intro sorted_wrt_evict sorted_wrt_filter) (use store_invD(2) [OF inv] in \<open>simp add: sorted_ts_def\<close>)
  obtain a b where c: "commit a0 e2 b0 s5 = (Inr (), s5\<lparr>m_proofs := a @ e2 # b\<rparr>)"
    and ab: "a @ b = a0 @ b0" and sab: "sorted_ts (a @ e2 # b)"
    using commit_ok [OF nab, of s5] so by blast
  have "addOrphan p peer now s = commit_at ?h s5"
    using fi inc
    by (simp add: addOrphan_def ad s3_def s5_def f1_def f2_def)
  also have "\<dots> = (Inr (), s5\<lparr>m_proofs := a @ e2 # b\<rparr>)"
    using sp5 c by (simp add: commit_at_def)
  also have "s5\<lparr>m_proofs := a @ e2 # b\<rparr> = s1\<lparr>m_proofs := a @ e2 # b,
                        m_numOrphans := m_numOrphans s1 + 1 - min kk (m_numOrphans s1)\<rparr>"
    by (simp add: s5_def s4_def update_entry_def)
  finally show ?thesis
    using ab ab0 others sab unfolding e2 by auto
qed


lemma find_id_link:
  "find_id h xs = None \<Longrightarrow> find_id h (link e xs) = (if entryId e = h then Some e else None)"
proof -
  assume n: "find_id h xs = None"
  obtain a b where ab: "xs = a @ b" "link e xs = a @ e # b"
    using link_split by blast
  from n have "find_id h a = None" "find_id h b = None"
    unfolding ab(1) by (auto simp: find_id_append split: option.splits)
  then show ?thesis by (simp add: ab(2) find_id_insert)
qed

lemma set_link: "set (link e xs) = insert e (set xs)"
proof -
  obtain a b where ab: "xs = a @ b" "link e xs = a @ e # b"
    using link_split by blast
  show ?thesis unfolding ab(2) using ab(1) by auto
qed

lemma add_result:
  assumes "store_inv s" and "\<not> isEmpty p"
  shows "\<exists>r s1. add p s = (Inr r, s1) \<and> store_inv s1 \<and>
           find_id (GetId p) (m_proofs s1) = Some (added p s) \<and>
           m_maxOrphans s1 = m_maxOrphans s \<and>
           r = (find_id (GetId p) (m_proofs s) = None)"
proof (cases "find_id (GetId p) (m_proofs s)")
  case None
  show ?thesis
    using add_store_inv [OF assms(1), of p] None
    by (auto simp: add_new [OF assms(2) None] find_id_link added_def Entry_new_def)
next
  case (Some e)
  have he: "entryId e = GetId p" using find_id_SomeD [OF Some] by simp
  show ?thesis
  proof (cases "orphan e")
    case True
    show ?thesis
      using add_store_inv [OF assms(1), of p] Some
      by (auto simp: add_orphan [OF assms Some True] update_entry_def find_id_update added_def)
  next
    case False
    then have "e\<lparr>orphan := False\<rparr> = e" by simp
    then show ?thesis
      using assms(1) Some by (auto simp: add_known [OF assms(2) Some False] added_def)
  qed
qed

lemma added_simps [simp]:
  "\<not> orphan (added p s)"
  by (simp add: added_def Entry_new_def split: option.splits)

lemma insert_store_inv:
  assumes "distinct (map entryId (a @ b))" and "find_id (entryId e) (a @ b) = None"
    and "sorted_ts (a @ e # b)"
    and "n = length (filter orphan (a @ b)) + (if orphan e then 1 else 0)"
  shows "store_inv (s\<lparr>m_proofs := a @ e # b, m_numOrphans := n\<rparr>)"
proof -
  have "entryId e \<notin> entryId ` set (a @ b)"
    using assms(2) by (simp add: find_id_None_iff)
  then have "distinct (map entryId (a @ e # b))"
    using assms(1) by auto
  then show ?thesis
    using assms(3,4) by (simp add: store_inv_def index_ok_def countOrphans_def)
qed

lemma addOrphan_store_inv:
  assumes "store_inv s"
  shows "store_inv (snd (addOrphan p peer now s))"
proof (cases "isEmpty p")
  case True
  then show ?thesis using assms by (simp add: addOrphan_def add_empty)
next
  case False
  obtain r s1 where ad: "add p s = (Inr r, s1)" and inv1: "store_inv s1"
    and fi: "find_id (GetId p) (m_proofs s1) = Some (added p s)"
    using add_result [OF assms False] by blast
  define kk where "kk = (if highWaterMark (m_maxOrphans s1) < m_numOrphans s1 + 1
                  then m_numOrphans s1 + 1 - m_maxOrphans s1 else 0)"
  let ?e = "admitted (added p s) peer now"
  let ?others = "filter (\<lambda>x. entryId x \<noteq> GetId p) (m_proofs s1)"
  obtain a b where eq: "addOrphan p peer now s =
            (Inr (), s1\<lparr>m_proofs := a @ ?e # b,
                        m_numOrphans := m_numOrphans s1 + 1 - min kk (m_numOrphans s1)\<rparr>)"
    and ab: "a @ b = evict (GetId p) kk ?others"
    and so: "sorted_ts (a @ ?e # b)"
    using addOrphan_after_add [OF ad inv1 fi, of peer now] unfolding kk_def by auto
  have he: "entryId ?e = GetId p"
    using find_id_SomeD [OF fi] by (simp add: admitted_def)
  have d: "distinct (map entryId (a @ b))"
    unfolding ab by (intro distinct_evict distinct_map_filter store_invD(1) [OF inv1])
  have n: "find_id (entryId ?e) (a @ b) = None"
    unfolding ab he filter_evict [symmetric] by (simp add: find_id_others)
  have c1: "length (filter orphan ?others) = m_numOrphans s1"
    using count_others [OF fi store_invD(1) [OF inv1]] store_invD(4) [OF inv1] by simp
  have c2: "length (filter (evictable (GetId p)) ?others) = m_numOrphans s1"
    unfolding count_evictable_others using c1 by simp
  have c: "m_numOrphans s1 + 1 - min kk (m_numOrphans s1) =
      length (filter orphan (a @ b)) + (if orphan ?e then 1 else 0)"
    unfolding ab count_orphan_evict c1 c2 by (simp add: admitted_def)
  show ?thesis
    unfolding eq snd_conv by (rule insert_store_inv [OF d n so c])
qed


subsection \<open>Runs keep the store consistent\<close>

lemma proofs_nonempty_iff:
  "proofs_nonempty s \<longleftrightarrow> (\<forall>e\<in>set (m_proofs s). \<not> isEmpty (dsproof e))"
  by (simp add: proofs_nonempty_def list_all_iff)

lemma add_nonempty:
  assumes "store_inv s" and "proofs_nonempty s"
  shows "proofs_nonempty (snd (add p s))"
proof (cases "isEmpty p")
  case True
  then show ?thesis using assms(2) by (simp add: add_empty)
next
  case ne: False
  show ?thesis
  proof (cases "find_id (GetId p) (m_proofs s)")
    case None
    show ?thesis
      using assms(2) ne
      by (simp add: add_new [OF ne None] proofs_nonempty_iff set_link Entry_new_def)
  next
    case (Some e)
    show ?thesis
    proof (cases "orphan e")
      case True
      show ?thesis
        using assms(2)
        by (auto simp: add_orphan [OF assms(1) ne Some True] proofs_nonempty_iff update_entry_def)
    next
      case False
      show ?thesis using assms(2) by (simp add: add_known [OF ne Some False])
    qed
  qed
qed

lemma addOrphan_result:
  assumes "store_inv s" and "\<not> isEmpty p"
  shows "\<exists>r s1 a b. add p s = (Inr r, s1) \<and>
     addOrphan p peer now s =
       (Inr (), s1\<lparr>m_proofs := a @ admitted (added p s) peer now # b,
                   m_numOrphans := m_numOrphans s1 + 1 -
                     min (if highWaterMark (m_maxOrphans s1) < m_numOrphans s1 + 1
                          then m_numOrphans s1 + 1 - m_maxOrphans s1 else 0)
                         (m_numOrphans s1)\<rparr>) \<and>
     a @ b = evict (GetId p)
               (if highWaterMark (m_maxOrphans s1) < m_numOrphans s1 + 1
                then m_numOrphans s1 + 1 - m_maxOrphans s1 else 0)
               (filter (\<lambda>x. entryId x \<noteq> GetId p) (m_proofs s1))"
proof -
  obtain r s1 where ad: "add p s = (Inr r, s1)" and inv1: "store_inv s1"
    and fi: "find_id (GetId p) (m_proofs s1) = Some (added p s)"
    using add_result [OF assms] by blast
  from addOrphan_after_add [OF ad inv1 fi added_simps, of peer now] obtain a b where
    "addOrphan p peer now s =
       (Inr (), s1\<lparr>m_proofs := a @ admitted (added p s) peer now # b,
                   m_numOrphans := m_numOrphans s1 + 1 -
                     min (if highWaterMark (m_maxOrphans s1) < m_numOrphans s1 + 1
                          then m_numOrphans s1 + 1 - m_maxOrphans s1 else 0)
                         (m_numOrphans s1)\<rparr>)"
    "a @ b = evict (GetId p)
               (if highWaterMark (m_maxOrphans s1) < m_numOrphans s1 + 1
                then m_numOrphans s1 + 1 - m_maxOrphans s1 else 0)
               (filter (\<lambda>x. entryId x \<noteq> GetId p) (m_proofs s1))"
    by blast
  with ad show ?thesis by blast
qed

lemma addOrphan_nonempty:
  assumes "store_inv s" and "proofs_nonempty s"
  shows "proofs_nonempty (snd (addOrphan p peer now s))"
proof (cases "isEmpty p")
  case True
  then show ?thesis using assms(2) by (simp add: addOrphan_def add_empty)
next
  case False
  obtain r s1 a b where ad: "add p s = (Inr r, s1)"
    and eq: "addOrphan p peer now s =
       (Inr (), s1\<lparr>m_proofs := a @ admitted (added p s) peer now # b,
                   m_numOrphans := m_numOrphans s1 + 1 -
                     min (if highWaterMark (m_maxOrphans s1) < m_numOrphans s1 + 1
                          then m_numOrphans s1 + 1 - m_maxOrphans s1 else 0)
                         (m_numOrphans s1)\<rparr>)"
    and ab: "a @ b = evict (GetId p)
               (if highWaterMark (m_maxOrphans s1) < m_numOrphans s1 + 1
                then m_numOrphans s1 + 1 - m_maxOrphans s1 else 0)
               (filter (\<lambda>x. entryId x \<noteq> GetId p) (m_proofs s1))"
    using addOrphan_result [OF assms(1) False, of peer now] by blast
  have ne1: "proofs_nonempty s1"
    using add_nonempty [OF assms, of p] ad by simp
  have "find_id (GetId p) (m_proofs s1) = Some (added p s)"
    using add_result [OF assms(1) False] ad by auto
  then have "added p s \<in> set (m_proofs s1)" by (auto dest: find_id_SomeD)
  then have e: "\<not> isEmpty (dsproof (admitted (added p s) peer now))"
    using ne1 by (simp add: proofs_nonempty_iff admitted_def)
  have "set (a @ b) \<subseteq> set (m_proofs s1)"
    unfolding ab using set_evict by fastforce
  then have "\<forall>x\<in>set a \<union> set b. \<not> isEmpty (dsproof x)"
    using ne1 by (auto simp: proofs_nonempty_iff)
  then show ?thesis using e by (auto simp: eq proofs_nonempty_iff)
qed

lemma exec_store_inv:
  assumes "store_inv s"
  shows "store_inv (snd (exec c s))"
proof (cases c)
  case (Add p)
  obtain r s' where a: "add p s = (r, s')" by (cases "add p s")
  then have "store_inv s'" using add_store_inv [OF assms, of p] by simp
  then show ?thesis using Add a by (cases r) simp_all
next
  case (AddOrphan p peer now)
  then show ?thesis using addOrphan_store_inv [OF assms] by simp
next
  case (ClaimOrphan h)
  then show ?thesis using claimOrphan_store_inv [OF assms] by simp
next
  case (Remove h)
  obtain r s' where a: "remove h s = (r, s')" by (cases "remove h s")
  then have "store_inv s'" using remove_store_inv [OF assms, of h] by simp
  then show ?thesis using Remove a by (cases r) simp_all
next
  case Clear
  then show ?thesis
    by (simp add: clear_def store_inv_def index_ok_def countOrphans_def)
next
  case (MarkProofRejected h)
  then show ?thesis
    using assms by (simp add: markProofRejected_def store_inv_def countOrphans_def)
next
  case NewBlockFound
  then show ?thesis
    using assms by (simp add: newBlockFound_def store_inv_def countOrphans_def)
next
  case (SetMaxOrphans mx)
  then show ?thesis
    using assms by (simp add: setMaxOrphans_def store_inv_def countOrphans_def)
next
  case (SetSecondsToKeepOrphans secs)
  then show ?thesis
    using assms by (simp add: setSecondsToKeepOrphans_def store_inv_def countOrphans_def)
qed

lemma exec_nonempty:
  assumes "store_inv s" and "proofs_nonempty s"
  shows "proofs_nonempty (snd (exec c s))"
proof (cases c)
  case (Add p)
  obtain r s' where a: "add p s = (r, s')" by (cases "add p s")
  then have "proofs_nonempty s'" using add_nonempty [OF assms, of p] by simp
  then show ?thesis using Add a by (cases r) simp_all
next
  case (AddOrphan p peer now)
  then show ?thesis using addOrphan_nonempty [OF assms] by simp
next
  case (ClaimOrphan h)
  then show ?thesis
    using assms(2)
    by (auto simp: claimOrphan_eq [OF assms(1)] proofs_nonempty_iff update_entry_def
        split: option.splits)
next
  case (Remove h)
  then show ?thesis
    using assms(2)
    by (auto simp: remove_eq [OF assms(1)] proofs_nonempty_iff split: option.splits)
next
  case Clear
  then show ?thesis by (simp add: clear_def proofs_nonempty_iff)
next
  case (MarkProofRejected h)
  then show ?thesis using assms(2) by (simp add: markProofRejected_def proofs_nonempty_iff)
next
  case NewBlockFound
  then show ?thesis using assms(2) by (simp add: newBlockFound_def proofs_nonempty_iff)
next
  case (SetMaxOrphans mx)
  then show ?thesis using assms(2) by (simp add: setMaxOrphans_def proofs_nonempty_iff)
next
  case (SetSecondsToKeepOrphans secs)
  then show ?thesis
    using assms(2) by (simp add: setSecondsToKeepOrphans_def proofs_nonempty_iff)
qed

text \<open>On a consistent store no call ends the process, and none throws but on an empty proof.\<close>

lemma exec_survives:
  assumes "store_inv s"
  shows "survives (fst (exec c s))"
proof (cases c)
  case (Add p)
  show ?thesis
  proof (cases "isEmpty p")
    case True
    then show ?thesis using Add by (simp add: add_empty)
  next
    case False
    then show ?thesis using Add add_result [OF assms False] by auto
  qed
next
  case (AddOrphan p peer now)
  show ?thesis
  proof (cases "isEmpty p")
    case True
    then show ?thesis using AddOrphan by (simp add: addOrphan_def add_empty)
  next
    case False
    then show ?thesis using AddOrphan addOrphan_result [OF assms False, of peer now] by auto
  qed
next
  case (ClaimOrphan h)
  then show ?thesis by (simp add: claimOrphan_eq [OF assms])
next
  case (Remove h)
  then show ?thesis by (simp add: remove_eq [OF assms] split: option.splits)
qed simp_all

lemma run_inv:
  "store_inv s \<Longrightarrow> proofs_nonempty s \<Longrightarrow>
     \<exists>s'. run cs s = Some s' \<and> store_inv s' \<and> proofs_nonempty s'"
proof (induction cs arbitrary: s)
  case Nil
  then show ?case by simp
next
  case (Cons c cs)
  obtain r s1 where e: "exec c s = (r, s1)" by (cases "exec c s")
  have "survives r" using exec_survives [OF Cons.prems(1), of c] e by simp
  moreover have "store_inv s1" using exec_store_inv [OF Cons.prems(1), of c] e by simp
  moreover have "proofs_nonempty s1" using exec_nonempty [OF Cons.prems, of c] e by simp
  ultimately show ?case using Cons.IH [of s1] e by simp
qed

lemma construct_inv:
  "store_inv (construct mx secs hf h1 h2)" "proofs_nonempty (construct mx secs hf h1 h2)"
  by (simp_all add: construct_def store_inv_def index_ok_def countOrphans_def
      proofs_nonempty_def)

lemma run_store_inv:
  "run cs (construct mx secs hf h1 h2) = Some s \<Longrightarrow> store_inv s"
  using run_inv [OF construct_inv, of cs mx secs hf h1 h2] by auto

text \<open>
  C1. After any sequence of calls on a freshly constructed store the process is still
  running and \<open>numOrphans()\<close> is the number of stored records whose orphan flag is set.
\<close>

theorem counter_flag_agreement:
  "\<exists>s. run cs (construct mx secs hf h1 h2) = Some s \<and> numOrphans s = countOrphans s"
  using run_inv [OF construct_inv, of cs mx secs hf h1 h2]
  by (auto simp: store_inv_def numOrphans_def)

text \<open>
  C10. After any sequence of calls on a freshly constructed store no stored record has an
  empty proof; so \<open>lookup(h)\<close> is empty, and is the default proof, exactly when \<open>h\<close> is
  not stored, and \<open>exists(h)\<close> holds exactly when \<open>lookup(h)\<close> is not empty.
\<close>

theorem stored_proofs_nonempty:
  "\<exists>s. run cs (construct mx secs hf h1 h2) = Some s \<and> proofs_nonempty s \<and>
       (isEmpty (lookup h s) \<longleftrightarrow> \<not> exists h s) \<and>
       (lookup h s = DoubleSpendProof_default \<longleftrightarrow> \<not> exists h s) \<and>
       (exists h s \<longleftrightarrow> \<not> isEmpty (lookup h s))"
proof -
  obtain s where r: "run cs (construct mx secs hf h1 h2) = Some s" and ne: "proofs_nonempty s"
    using run_inv [OF construct_inv, of cs mx secs hf h1 h2] by blast
  have a: "isEmpty (lookup h s) \<longleftrightarrow> \<not> exists h s"
  proof (cases "find_id h (m_proofs s)")
    case None
    then show ?thesis by (simp add: lookup_def exists_def DoubleSpendProof_default_def)
  next
    case (Some e)
    then have "e \<in> set (m_proofs s)" by (auto dest: find_id_SomeD)
    then have "\<not> isEmpty (dsproof e)" using ne by (simp add: proofs_nonempty_iff)
    then show ?thesis using Some by (simp add: lookup_def exists_def)
  qed
  have b: "lookup h s = DoubleSpendProof_default \<longleftrightarrow> \<not> exists h s"
  proof
    assume "lookup h s = DoubleSpendProof_default"
    then have "isEmpty (lookup h s)" by (simp add: DoubleSpendProof_default_def)
    then show "\<not> exists h s" using a by simp
  next
    assume "\<not> exists h s"
    then show "lookup h s = DoubleSpendProof_default" by (simp add: lookup_def exists_def)
  qed
  show ?thesis using r ne a b by auto
qed


subsection \<open>The sweep\<close>

lemma evict_prefix:
  "\<exists>ys zs. xs = ys @ zs \<and>
     evict h k xs = filter (\<lambda>e. \<not> evictable h e) ys @ zs \<and>
     length (filter (evictable h) ys) = min k (length (filter (evictable h) xs)) \<and>
     (length (filter (evictable h) ys) = k \<or> zs = [])"
proof (induction xs arbitrary: k)
  case Nil
  then show ?case by simp
next
  case (Cons e es)
  show ?case
  proof (cases "k = 0")
    case True
    have "e # es = [] @ (e # es) \<and>
     evict h k (e # es) = filter (\<lambda>e. \<not> evictable h e) [] @ (e # es) \<and>
     length (filter (evictable h) []) = min k (length (filter (evictable h) (e # es))) \<and>
     (length (filter (evictable h) []) = k \<or> e # es = [])"
      using True by simp
    then show ?thesis by blast
  next
    case False
    then obtain j where k: "k = Suc j" by (cases k) auto
    show ?thesis
    proof (cases "evictable h e")
      case True
      obtain ys zs where "es = ys @ zs"
        "evict h j es = filter (\<lambda>e. \<not> evictable h e) ys @ zs"
        "length (filter (evictable h) ys) = min j (length (filter (evictable h) es))"
        "length (filter (evictable h) ys) = j \<or> zs = []"
        using Cons.IH [of j] by blast
      then have "e # es = (e # ys) @ zs \<and>
         evict h k (e # es) = filter (\<lambda>e. \<not> evictable h e) (e # ys) @ zs \<and>
         length (filter (evictable h) (e # ys)) = min k (length (filter (evictable h) (e # es))) \<and>
         (length (filter (evictable h) (e # ys)) = k \<or> zs = [])"
        using True k by auto
      then show ?thesis by blast
    next
      case nev: False
      obtain ys zs where "es = ys @ zs"
        "evict h k es = filter (\<lambda>e. \<not> evictable h e) ys @ zs"
        "length (filter (evictable h) ys) = min k (length (filter (evictable h) es))"
        "length (filter (evictable h) ys) = k \<or> zs = []"
        using Cons.IH [of k] by blast
      then have "e # es = (e # ys) @ zs \<and>
         evict h k (e # es) = filter (\<lambda>e. \<not> evictable h e) (e # ys) @ zs \<and>
         length (filter (evictable h) (e # ys)) = min k (length (filter (evictable h) (e # es))) \<and>
         (length (filter (evictable h) (e # ys)) = k \<or> zs = [])"
        using nev False by auto
      then show ?thesis by blast
    qed
  qed
qed

declare bitlen.simps [simp del]

lemma round_double_exact: "n < 9007199254740992 \<Longrightarrow> round_double n = n"
  by (simp add: round_double_def)

text \<open>Under \<open>2^53 / 5\<close> the product is exact.\<close>

lemma highWaterMark_exact:
  assumes "mx < 1801439850948199"
  shows "highWaterMark mx = mx * 5 div 4"
proof -
  have a: "round_double mx = mx" using assms by (intro round_double_exact) simp
  have b: "round_double (5 * mx) = 5 * mx" using assms by (intro round_double_exact) simp
  have c: "5 * mx div 4 < 18446744073709551616" using assms by simp
  show ?thesis using c by (simp add: highWaterMark_def a b Let_def)
qed

lemma five_quarters_floor: "nat \<lfloor>real mx * 1.25\<rfloor> = mx * 5 div 4"
proof -
  have "real mx * 1.25 = real (mx * 5) / real 4" by simp
  then have "\<lfloor>real mx * 1.25\<rfloor> = int ((mx * 5) div 4)"
    by (simp only: floor_divide_of_nat_eq)
  then show ?thesis by simp
qed

lemma highWaterMark_floor:
  "mx < 1801439850948199 \<Longrightarrow> highWaterMark mx = nat \<lfloor>real mx * 1.25\<rfloor>"
  by (simp only: highWaterMark_exact five_quarters_floor)

lemma highWaterMark_ge: "mx < 1801439850948199 \<Longrightarrow> mx \<le> highWaterMark mx"
  by (simp add: highWaterMark_exact)

lemma filter_update_others:
  "(\<And>e. entryId (f e) = entryId e) \<Longrightarrow>
     filter (\<lambda>x. entryId x \<noteq> h) (map (\<lambda>x. if entryId x = h then f x else x) xs) =
     filter (\<lambda>x. entryId x \<noteq> h) xs"
  by (induction xs) auto

lemma filter_absent:
  "find_id h xs = None \<Longrightarrow> filter (\<lambda>x. entryId x \<noteq> h) xs = xs"
  by (auto simp: filter_id_conv find_id_None_iff)

text \<open>The calls other than \<open>addOrphan\<close> erase no record but the one they name.\<close>

lemma no_sweep_elsewhere:
  assumes "store_inv u"
  shows "m_proofs (snd (claimOrphan h u)) =
           map (\<lambda>x. if entryId x = h then x\<lparr>orphan := False\<rparr> else x) (m_proofs u)"
    and "m_proofs (snd (remove h u)) = filter (\<lambda>x. entryId x \<noteq> h) (m_proofs u)"
    and "filter (\<lambda>x. entryId x \<noteq> GetId p) (m_proofs (snd (add p u))) =
           filter (\<lambda>x. entryId x \<noteq> GetId p) (m_proofs u)"
proof -
  have d: "distinct (map entryId (m_proofs u))" by (rule store_invD(1) [OF assms])
  show "m_proofs (snd (claimOrphan h u)) =
           map (\<lambda>x. if entryId x = h then x\<lparr>orphan := False\<rparr> else x) (m_proofs u)"
  proof (cases "find_id h (m_proofs u)")
    case None
    then show ?thesis by (simp add: claimOrphan_eq [OF assms] update_absent)
  next
    case (Some e)
    show ?thesis
    proof (cases "orphan e")
      case True
      then show ?thesis using Some by (simp add: claimOrphan_eq [OF assms] update_entry_def)
    next
      case False
      obtain pre post where sp: "split_at h (m_proofs u) = Some (pre, e, post)"
        using split_at_find_Some [OF Some] by blast
      have "map (\<lambda>x. if entryId x = h then x\<lparr>orphan := False\<rparr> else x) (m_proofs u) =
            pre @ e\<lparr>orphan := False\<rparr> # post"
        by (rule update_split [OF sp d])
      also have "\<dots> = m_proofs u"
        using split_at_SomeD [OF sp] False by simp
      finally show ?thesis using Some False by (simp add: claimOrphan_eq [OF assms])
    qed
  qed
  show "m_proofs (snd (remove h u)) = filter (\<lambda>x. entryId x \<noteq> h) (m_proofs u)"
    by (cases "find_id h (m_proofs u)") (simp_all add: remove_eq [OF assms] filter_absent)
  show "filter (\<lambda>x. entryId x \<noteq> GetId p) (m_proofs (snd (add p u))) =
           filter (\<lambda>x. entryId x \<noteq> GetId p) (m_proofs u)"
  proof (cases "isEmpty p")
    case True
    then show ?thesis by (simp add: add_empty)
  next
    case ne: False
    show ?thesis
    proof (cases "find_id (GetId p) (m_proofs u)")
      case None
      obtain a b where ab: "m_proofs u = a @ b"
        "link (Entry_new p) (m_proofs u) = a @ Entry_new p # b"
        using link_split by blast
      show ?thesis
        unfolding add_new [OF ne None] snd_conv
        by (simp add: ab(2)) (simp add: ab(1) Entry_new_def)
    next
      case (Some e)
      show ?thesis
      proof (cases "orphan e")
        case True
        show ?thesis
          by (simp add: add_orphan [OF assms ne Some True] update_entry_def filter_update_others)
      next
        case False
        show ?thesis by (simp add: add_known [OF ne Some False])
      qed
    qed
  qed
qed

text \<open>
  C3 does not hold as stated: the high-water mark is the double product of the limit
  and 1.25, truncated, and from the limit 1801439850948199 on that product is rounded;
  there the mark is 2251799813685249 and not \<open>floor(limit * 1.25) = 2251799813685248\<close>.
\<close>

theorem highWaterMark_rounds:
  "highWaterMark (m_maxOrphans (store0 1801439850948199)) = 2251799813685249 \<and>
   nat \<lfloor>real (m_maxOrphans (store0 1801439850948199)) * 1.25\<rfloor> = 2251799813685248 \<and>
   highWaterMark 7205759403792795 = 9007199254740994 \<and>
   nat \<lfloor>real 7205759403792795 * 1.25\<rfloor> = 9007199254740993"
proof -
  have m: "m_maxOrphans (store0 1801439850948199) = 1801439850948199"
    by (simp add: store0_def construct_def)
  have a: "highWaterMark 1801439850948199 = 2251799813685249"
    by (simp add: highWaterMark_def round_double_def Let_def bitlen.simps)
  have b: "nat \<lfloor>real 1801439850948199 * 1.25\<rfloor> = 2251799813685248"
    by (simp add: five_quarters_floor)
  have c: "highWaterMark 7205759403792795 = 9007199254740994"
    by (simp add: highWaterMark_def round_double_def Let_def bitlen.simps)
  have d: "nat \<lfloor>real 7205759403792795 * 1.25\<rfloor> = 9007199254740993"
    by (simp add: five_quarters_floor)
  show ?thesis
    unfolding m using a b c d by (intro conjI)
qed

text \<open>
  C3, amended. The high-water mark is \<open>size_t(limit * 1.25)\<close> taken in double precision;
  for every limit under 1801439850948199 it is the floor of 1.25 times the limit, and not
  under the limit. The sweep is started by an increment of the counter, and by nothing
  else: \<open>claimOrphan\<close>, \<open>remove\<close>, \<open>add\<close> and \<open>setMaxOrphans\<close> on a store reached by any
  sequence of calls erase no record but the one they name. While the counter is at most
  the high-water mark the sweep changes nothing. Otherwise it passes over a prefix of the
  time-stamp index, erases there every orphan whose identity is not the protected one,
  decrements the counter once per erasure and leaves the rest of the index alone; with
  the counter over the limit, it stops with the counter at the limit or with the index
  exhausted, and never takes the counter under the limit. The record of the protected
  identity is never erased. The index of a store reached by any sequence of calls is in
  ascending order of time stamps, also when the record of the protected identity has
  been changed where it stands; and when the records other than the protected one are
  in that order, every erased record is at most as young as every other record the
  sweep has not passed: the oldest orphans go first.
\<close>

theorem checkOrphanLimit_sweep:
  "(m_maxOrphans s < 1801439850948199 \<longrightarrow>
      highWaterMark (m_maxOrphans s) = nat \<lfloor>real (m_maxOrphans s) * 1.25\<rfloor> \<and>
      m_maxOrphans s \<le> highWaterMark (m_maxOrphans s)) \<and>
   incrementOrphans 0 h s = (Inr (), s) \<and>
   (n \<noteq> 0 \<longrightarrow>
      incrementOrphans n h s = checkOrphanLimit h (s\<lparr>m_numOrphans := m_numOrphans s + n\<rparr>)) \<and>
   (m_numOrphans s \<le> highWaterMark (m_maxOrphans s) \<longrightarrow> checkOrphanLimit h s = (Inr (), s)) \<and>
   (highWaterMark (m_maxOrphans s) < m_numOrphans s \<longrightarrow>
      (\<exists>ys zs. m_proofs s = ys @ zs \<and>
         checkOrphanLimit h s =
           (Inr (), s\<lparr>m_proofs := filter (\<lambda>e. \<not> evictable h e) ys @ zs,
                     m_numOrphans := m_numOrphans s - length (filter (evictable h) ys)\<rparr>) \<and>
         (m_maxOrphans s < m_numOrphans s \<longrightarrow>
            (m_numOrphans s - length (filter (evictable h) ys) = m_maxOrphans s \<or> zs = []) \<and>
            m_maxOrphans s \<le> m_numOrphans s - length (filter (evictable h) ys)) \<and>
         (sorted_ts (filter (\<lambda>x. entryId x \<noteq> h) (m_proofs s)) \<longrightarrow>
            (\<forall>x\<in>set ys. \<forall>y\<in>set zs.
               evictable h x \<longrightarrow> entryId y \<noteq> h \<longrightarrow> timeStamp x \<le> timeStamp y)))) \<and>
   find_id h (m_proofs (snd (checkOrphanLimit h s))) = find_id h (m_proofs s) \<and>
   (run cs (construct mx secs hf h1 h2) = Some u \<longrightarrow>
      sorted_ts (m_proofs u) \<and>
      ((\<forall>e. entryId (f e) = entryId e) \<longrightarrow>
         sorted_ts (filter (\<lambda>x. entryId x \<noteq> h) (m_proofs (update_entry h f u)))) \<and>
      m_proofs (snd (claimOrphan h u)) =
        map (\<lambda>x. if entryId x = h then x\<lparr>orphan := False\<rparr> else x) (m_proofs u) \<and>
      m_proofs (snd (remove h u)) = filter (\<lambda>x. entryId x \<noteq> h) (m_proofs u) \<and>
      filter (\<lambda>x. entryId x \<noteq> GetId p) (m_proofs (snd (add p u))) =
        filter (\<lambda>x. entryId x \<noteq> GetId p) (m_proofs u) \<and>
      setMaxOrphans mx' u = u\<lparr>m_maxOrphans := mx'\<rparr>)"
proof -
  have r: "highWaterMark (m_maxOrphans s) = nat \<lfloor>real (m_maxOrphans s) * 1.25\<rfloor> \<and>
      m_maxOrphans s \<le> highWaterMark (m_maxOrphans s)"
    if "m_maxOrphans s < 1801439850948199"
    using highWaterMark_floor [OF that] highWaterMark_ge [OF that] by simp
  have a: "m_numOrphans s \<le> highWaterMark (m_maxOrphans s) \<Longrightarrow> checkOrphanLimit h s = (Inr (), s)"
    by (simp add: checkOrphanLimit_def)
  have b: "\<exists>ys zs. m_proofs s = ys @ zs \<and>
         checkOrphanLimit h s =
           (Inr (), s\<lparr>m_proofs := filter (\<lambda>e. \<not> evictable h e) ys @ zs,
                     m_numOrphans := m_numOrphans s - length (filter (evictable h) ys)\<rparr>) \<and>
         (m_maxOrphans s < m_numOrphans s \<longrightarrow>
            (m_numOrphans s - length (filter (evictable h) ys) = m_maxOrphans s \<or> zs = []) \<and>
            m_maxOrphans s \<le> m_numOrphans s - length (filter (evictable h) ys)) \<and>
         (sorted_ts (filter (\<lambda>x. entryId x \<noteq> h) (m_proofs s)) \<longrightarrow>
            (\<forall>x\<in>set ys. \<forall>y\<in>set zs.
               evictable h x \<longrightarrow> entryId y \<noteq> h \<longrightarrow> timeStamp x \<le> timeStamp y))"
    if hi: "highWaterMark (m_maxOrphans s) < m_numOrphans s"
  proof -
    let ?k = "m_numOrphans s - m_maxOrphans s"
    obtain ys zs where xs: "m_proofs s = ys @ zs"
      and ev: "evict h ?k (m_proofs s) = filter (\<lambda>e. \<not> evictable h e) ys @ zs"
      and len: "length (filter (evictable h) ys) =
                  min ?k (length (filter (evictable h) (m_proofs s)))"
      and stop: "length (filter (evictable h) ys) = ?k \<or> zs = []"
      using evict_prefix [of "m_proofs s" h ?k] by blast
    have eq: "checkOrphanLimit h s =
           (Inr (), s\<lparr>m_proofs := filter (\<lambda>e. \<not> evictable h e) ys @ zs,
                     m_numOrphans := m_numOrphans s - length (filter (evictable h) ys)\<rparr>)"
      using hi by (simp add: checkOrphanLimit_eq ev len)
    have st: "(m_numOrphans s - length (filter (evictable h) ys) = m_maxOrphans s \<or> zs = []) \<and>
            m_maxOrphans s \<le> m_numOrphans s - length (filter (evictable h) ys)"
      if lo: "m_maxOrphans s < m_numOrphans s"
      using stop len lo by auto
    have old: "\<forall>x\<in>set ys. \<forall>y\<in>set zs.
               evictable h x \<longrightarrow> entryId y \<noteq> h \<longrightarrow> timeStamp x \<le> timeStamp y"
      if so: "sorted_ts (filter (\<lambda>x. entryId x \<noteq> h) (m_proofs s))"
    proof (intro ballI impI)
      fix x y
      assume x: "x \<in> set ys" and y: "y \<in> set zs" and ex: "evictable h x" and ny: "entryId y \<noteq> h"
      have "entryId x \<noteq> h" using ex by (auto simp: evictable_def)
      then have "x \<in> set (filter (\<lambda>x. entryId x \<noteq> h) ys)" using x by simp
      moreover have "y \<in> set (filter (\<lambda>x. entryId x \<noteq> h) zs)" using y ny by simp
      ultimately show "timeStamp x \<le> timeStamp y"
        using so unfolding xs filter_append sorted_ts_append by blast
    qed
    show ?thesis using xs eq st old by blast
  qed
  have c: "find_id h (m_proofs (snd (checkOrphanLimit h s))) = find_id h (m_proofs s)"
    by (simp add: checkOrphanLimit_eq find_id_evict)
  have d: "sorted_ts (m_proofs u) \<and>
      ((\<forall>e. entryId (f e) = entryId e) \<longrightarrow>
         sorted_ts (filter (\<lambda>x. entryId x \<noteq> h) (m_proofs (update_entry h f u)))) \<and>
      m_proofs (snd (claimOrphan h u)) =
        map (\<lambda>x. if entryId x = h then x\<lparr>orphan := False\<rparr> else x) (m_proofs u) \<and>
      m_proofs (snd (remove h u)) = filter (\<lambda>x. entryId x \<noteq> h) (m_proofs u) \<and>
      filter (\<lambda>x. entryId x \<noteq> GetId p) (m_proofs (snd (add p u))) =
        filter (\<lambda>x. entryId x \<noteq> GetId p) (m_proofs u) \<and>
      setMaxOrphans mx' u = u\<lparr>m_maxOrphans := mx'\<rparr>"
    if ru: "run cs (construct mx secs hf h1 h2) = Some u"
  proof -
    have inv: "store_inv u" by (rule run_store_inv [OF ru])
    have so: "sorted_ts (m_proofs u)" by (rule store_invD(2) [OF inv])
    have up: "sorted_ts (filter (\<lambda>x. entryId x \<noteq> h) (m_proofs (update_entry h f u)))"
      if "\<forall>e. entryId (f e) = entryId e"
      using that so by (simp add: update_entry_def filter_update_others sorted_ts_filter)
    show ?thesis
      using so up no_sweep_elsewhere(1,2) [OF inv, of h] no_sweep_elsewhere(3) [OF inv, of p]
      by (simp add: setMaxOrphans_def)
  qed
  have i0: "incrementOrphans 0 h s = (Inr (), s)"
    by (simp add: incrementOrphans_def)
  have i1: "incrementOrphans n h s = checkOrphanLimit h (s\<lparr>m_numOrphans := m_numOrphans s + n\<rparr>)"
    if "n \<noteq> 0"
    using that by (simp add: incrementOrphans_def)
  show ?thesis
    using r i0 i1 a b c d by blast
qed

lemmas eval_defs = store0_def construct_def proofA_def proofB_def proofC_def
  addOrphan_def add_def claimOrphan_def remove_def emplace_def link_def Entry_new_def
  update_entry_def incrementOrphans_def checkOrphanLimit_def highWaterMark_exact
  decrementOrphans_def commit_at_def commit_def in_place_def modify_def
  reap_Cons evictable_def admitted_def sweep_example_def storeA_def storeAB_def
  broken_example_def

theorem checkOrphanLimit_sweep_witness:
  "m_maxOrphans sweep_example < 1801439850948199 \<and>
   highWaterMark (m_maxOrphans sweep_example) = nat \<lfloor>real (m_maxOrphans sweep_example) * 1.25\<rfloor> \<and>
   highWaterMark (m_maxOrphans sweep_example) = 2 \<and>
   highWaterMark (m_maxOrphans sweep_example) < m_numOrphans sweep_example \<and>
   m_maxOrphans sweep_example < m_numOrphans sweep_example \<and>
   sorted_ts (filter (\<lambda>x. entryId x \<noteq> 3) (m_proofs sweep_example)) \<and>
   checkOrphanLimit 3 sweep_example =
     (Inr (), sweep_example\<lparr>m_proofs := [admitted (Entry_new proofB) 8 101,
                                         (Entry_new proofC)\<lparr>nodeId := 9, timeStamp := 102\<rparr>],
                            m_numOrphans := 2\<rparr>) \<and>
   (\<exists>ys zs. m_proofs sweep_example = ys @ zs \<and>
      checkOrphanLimit 3 sweep_example =
        (Inr (), sweep_example\<lparr>m_proofs := filter (\<lambda>e. \<not> evictable 3 e) ys @ zs,
           m_numOrphans := m_numOrphans sweep_example - length (filter (evictable 3) ys)\<rparr>) \<and>
      (m_numOrphans sweep_example - length (filter (evictable 3) ys) = m_maxOrphans sweep_example
         \<or> zs = []) \<and>
      m_maxOrphans sweep_example \<le> m_numOrphans sweep_example - length (filter (evictable 3) ys) \<and>
      (\<forall>x\<in>set ys. \<forall>y\<in>set zs.
         evictable 3 x \<longrightarrow> entryId y \<noteq> 3 \<longrightarrow> timeStamp x \<le> timeStamp y)) \<and>
   run [AddOrphan proofA 7 100] (store0 1) = Some (storeA 1) \<and>
   sorted_ts (m_proofs (storeA 1)) \<and>
   m_proofs (snd (remove 1 (storeA 1))) = filter (\<lambda>x. entryId x \<noteq> 1) (m_proofs (storeA 1)) \<and>
   setMaxOrphans 0 (storeA 1) = (storeA 1)\<lparr>m_maxOrphans := 0\<rparr>"
proof -
  have rg: "m_maxOrphans sweep_example < 1801439850948199"
    by (simp add: sweep_example_def store0_def construct_def)
  have two: "highWaterMark (m_maxOrphans sweep_example) = 2"
    by (simp add: eval_defs)
  have hi: "highWaterMark (m_maxOrphans sweep_example) < m_numOrphans sweep_example"
    by (simp add: eval_defs)
  have lo: "m_maxOrphans sweep_example < m_numOrphans sweep_example"
    by (simp add: sweep_example_def store0_def construct_def)
  have so: "sorted_ts (filter (\<lambda>x. entryId x \<noteq> 3) (m_proofs sweep_example))"
    by (simp add: sweep_example_def sorted_ts_def admitted_def Entry_new_def proofA_def
        proofB_def proofC_def)
  have ev: "checkOrphanLimit 3 sweep_example =
     (Inr (), sweep_example\<lparr>m_proofs := [admitted (Entry_new proofB) 8 101,
                                         (Entry_new proofC)\<lparr>nodeId := 9, timeStamp := 102\<rparr>],
                            m_numOrphans := 2\<rparr>)"
    by (simp add: eval_defs)
  have ru: "run [AddOrphan proofA 7 100] (construct 1 90 (\<lambda>i h. h + i) \<lparr>k0 = 1, k1 = 2\<rparr>
             \<lparr>k0 = 3, k1 = 4\<rparr>) = Some (storeA 1)"
    by (simp add: eval_defs)
  note th = checkOrphanLimit_sweep [where s = sweep_example and h = 3 and n = 1]
  note tu = checkOrphanLimit_sweep [where h = 1 and u = "storeA 1"
      and cs = "[AddOrphan proofA 7 100]" and mx = 1 and secs = 90 and hf = "\<lambda>i h. h + i"
      and ?h1.0 = "\<lparr>k0 = 1, k1 = 2\<rparr>" and ?h2.0 = "\<lparr>k0 = 3, k1 = 4\<rparr>" and mx' = 0]
  have fl: "highWaterMark (m_maxOrphans sweep_example) =
      nat \<lfloor>real (m_maxOrphans sweep_example) * 1.25\<rfloor>"
    by (rule th [THEN conjunct1, rule_format, OF rg, THEN conjunct1])
  from th [THEN conjunct2, THEN conjunct2, THEN conjunct2, THEN conjunct2, THEN conjunct1,
      rule_format, OF hi]
  obtain ys zs where xs: "m_proofs sweep_example = ys @ zs"
    and eq: "checkOrphanLimit 3 sweep_example =
        (Inr (), sweep_example\<lparr>m_proofs := filter (\<lambda>e. \<not> evictable 3 e) ys @ zs,
           m_numOrphans := m_numOrphans sweep_example - length (filter (evictable 3) ys)\<rparr>)"
    and st: "m_maxOrphans sweep_example < m_numOrphans sweep_example \<longrightarrow>
      (m_numOrphans sweep_example - length (filter (evictable 3) ys) = m_maxOrphans sweep_example
         \<or> zs = []) \<and>
      m_maxOrphans sweep_example \<le> m_numOrphans sweep_example - length (filter (evictable 3) ys)"
    and ol: "sorted_ts (filter (\<lambda>x. entryId x \<noteq> 3) (m_proofs sweep_example)) \<longrightarrow>
      (\<forall>x\<in>set ys. \<forall>y\<in>set zs.
         evictable 3 x \<longrightarrow> entryId y \<noteq> 3 \<longrightarrow> timeStamp x \<le> timeStamp y)"
    by blast
  have st1: "m_numOrphans sweep_example - length (filter (evictable 3) ys) =
      m_maxOrphans sweep_example \<or> zs = []"
    and st2: "m_maxOrphans sweep_example \<le>
      m_numOrphans sweep_example - length (filter (evictable 3) ys)"
    using st [rule_format, OF lo] by (rule conjunct1, rule conjunct2)
  note ol' = ol [THEN mp, OF so]
  have ex: "\<exists>ys zs. m_proofs sweep_example = ys @ zs \<and>
      checkOrphanLimit 3 sweep_example =
        (Inr (), sweep_example\<lparr>m_proofs := filter (\<lambda>e. \<not> evictable 3 e) ys @ zs,
           m_numOrphans := m_numOrphans sweep_example - length (filter (evictable 3) ys)\<rparr>) \<and>
      (m_numOrphans sweep_example - length (filter (evictable 3) ys) = m_maxOrphans sweep_example
         \<or> zs = []) \<and>
      m_maxOrphans sweep_example \<le> m_numOrphans sweep_example - length (filter (evictable 3) ys) \<and>
      (\<forall>x\<in>set ys. \<forall>y\<in>set zs.
         evictable 3 x \<longrightarrow> entryId y \<noteq> 3 \<longrightarrow> timeStamp x \<le> timeStamp y)"
    by (intro exI [of _ ys] exI [of _ zs] conjI xs eq st1 st2 ol')
  note re = tu [THEN conjunct2, THEN conjunct2, THEN conjunct2, THEN conjunct2, THEN conjunct2,
      THEN conjunct2, rule_format, OF ru]
  have re1: "sorted_ts (m_proofs (storeA 1))"
    by (rule re [THEN conjunct1])
  have re2: "m_proofs (snd (remove 1 (storeA 1))) =
      filter (\<lambda>x. entryId x \<noteq> 1) (m_proofs (storeA 1))"
    by (rule re [THEN conjunct2, THEN conjunct2, THEN conjunct2, THEN conjunct1])
  have re3: "setMaxOrphans 0 (storeA 1) = (storeA 1)\<lparr>m_maxOrphans := 0\<rparr>"
    by (rule re [THEN conjunct2, THEN conjunct2, THEN conjunct2, THEN conjunct2, THEN conjunct2])
  have ru': "run [AddOrphan proofA 7 100] (store0 1) = Some (storeA 1)"
    using ru by (simp add: store0_def)
  show ?thesis
    by (intro conjI rg fl two hi lo so ev ex re1 re2 re3 ru')
qed


subsection \<open>add\<close>

lemma length_link: "length (link e xs) = Suc (length xs)"
proof -
  obtain a b where ab: "xs = a @ b" "link e xs = a @ e # b"
    using link_split by blast
  show ?thesis unfolding ab(2) using ab(1) by simp
qed

text \<open>
  C4. On a store reached by any sequence of calls: \<open>add\<close> of an empty proof throws
  invalid_argument and leaves the store as it was; \<open>add\<close> of a proof whose record is
  stored as an orphan decrements the counter, clears the flag of that record and returns
  false; of one stored and not an orphan, returns false and changes nothing; of one not
  stored, links a new record, not an orphan, with no peer and no time stamp, and returns
  true.
\<close>

theorem add_spec:
  assumes "run cs (construct mx secs hf h1 h2) = Some s"
  shows "(isEmpty p \<longrightarrow> add p s = (Inl (Thrown invalid_argument), s)) \<and>
   (\<not> isEmpty p \<longrightarrow>
      (\<forall>e. find_id (GetId p) (m_proofs s) = Some e \<and> orphan e \<longrightarrow>
         0 < m_numOrphans s \<and>
         add p s = (Inr False, update_entry (GetId p) (\<lambda>e. e\<lparr>orphan := False\<rparr>)
                                 (s\<lparr>m_numOrphans := m_numOrphans s - 1\<rparr>)) \<and>
         find_id (GetId p) (m_proofs (snd (add p s))) = Some (e\<lparr>orphan := False\<rparr>)) \<and>
      (\<forall>e. find_id (GetId p) (m_proofs s) = Some e \<and> \<not> orphan e \<longrightarrow>
         add p s = (Inr False, s)) \<and>
      (find_id (GetId p) (m_proofs s) = None \<longrightarrow>
         add p s = (Inr True, s\<lparr>m_proofs := link (Entry_new p) (m_proofs s)\<rparr>) \<and>
         find_id (GetId p) (m_proofs (snd (add p s))) =
           Some \<lparr>orphan = False, nodeId = - 1, timeStamp = - 1, dsproof = p\<rparr> \<and>
         size_storage (snd (add p s)) = size_storage s + 1))"
proof -
  have inv: "store_inv s" by (rule run_store_inv [OF assms])
  have a: "isEmpty p \<Longrightarrow> add p s = (Inl (Thrown invalid_argument), s)"
    by (rule add_empty)
  have b: "0 < m_numOrphans s \<and>
         add p s = (Inr False, update_entry (GetId p) (\<lambda>e. e\<lparr>orphan := False\<rparr>)
                                 (s\<lparr>m_numOrphans := m_numOrphans s - 1\<rparr>)) \<and>
         find_id (GetId p) (m_proofs (snd (add p s))) = Some (e\<lparr>orphan := False\<rparr>)"
    if "\<not> isEmpty p" "find_id (GetId p) (m_proofs s) = Some e" "orphan e" for e
  proof -
    have "0 < m_numOrphans s"
      using orphan_counted [OF that(2,3)] store_invD(4) [OF inv] by simp
    moreover have "find_id (GetId p) (m_proofs (snd (add p s))) = Some (added p s)"
      using add_result [OF inv that(1)] by auto
    ultimately show ?thesis
      using that(2) by (simp add: add_orphan [OF inv that] added_def)
  qed
  have c: "add p s = (Inr False, s)"
    if "\<not> isEmpty p" "find_id (GetId p) (m_proofs s) = Some e" "\<not> orphan e" for e
    by (rule add_known [OF that])
  have d: "add p s = (Inr True, s\<lparr>m_proofs := link (Entry_new p) (m_proofs s)\<rparr>) \<and>
         find_id (GetId p) (m_proofs (snd (add p s))) =
           Some \<lparr>orphan = False, nodeId = - 1, timeStamp = - 1, dsproof = p\<rparr> \<and>
         size_storage (snd (add p s)) = size_storage s + 1"
    if "\<not> isEmpty p" "find_id (GetId p) (m_proofs s) = None"
  proof -
    show ?thesis
      using that(2)
      by (simp add: add_new [OF that] find_id_link size_storage_def length_link Entry_new_def)
  qed
  show ?thesis using a b c d by blast
qed

lemma run_storeA: "run [AddOrphan proofA 7 100] (store0 1) = Some (storeA 1)"
  by (simp add: eval_defs)

theorem add_spec_witness:
  "run [AddOrphan proofA 7 100] (store0 1) = Some (storeA 1) \<and>
   \<not> isEmpty proofA \<and>
   find_id (GetId proofA) (m_proofs (storeA 1)) = Some (admitted (Entry_new proofA) 7 100) \<and>
   orphan (admitted (Entry_new proofA) 7 100) \<and>
   add proofA (storeA 1) =
     (Inr False, (store0 1)\<lparr>m_proofs := [(admitted (Entry_new proofA) 7 100)\<lparr>orphan := False\<rparr>],
                            m_numOrphans := 0\<rparr>) \<and>
   find_id (GetId proofB) (m_proofs (storeA 1)) = None \<and>
   size_storage (snd (add proofB (storeA 1))) = 2 \<and>
   add DoubleSpendProof_default (storeA 1) = (Inl (Thrown invalid_argument), storeA 1)"
proof -
  have r: "run [AddOrphan proofA 7 100] (construct 1 90 (\<lambda>i h. h + i) \<lparr>k0 = 1, k1 = 2\<rparr>
             \<lparr>k0 = 3, k1 = 4\<rparr>) = Some (storeA 1)"
    using run_storeA by (simp add: store0_def)
  have f: "find_id (GetId proofA) (m_proofs (storeA 1)) = Some (admitted (Entry_new proofA) 7 100)"
    "orphan (admitted (Entry_new proofA) 7 100)" "\<not> isEmpty proofA"
    "find_id (GetId proofB) (m_proofs (storeA 1)) = None" "\<not> isEmpty proofB"
    "isEmpty DoubleSpendProof_default"
    by (simp_all add: storeA_def admitted_def Entry_new_def proofA_def proofB_def
        DoubleSpendProof_default_def)
  have u: "update_entry (GetId proofA) (\<lambda>e. e\<lparr>orphan := False\<rparr>)
             ((storeA 1)\<lparr>m_numOrphans := m_numOrphans (storeA 1) - 1\<rparr>) =
           (store0 1)\<lparr>m_proofs := [(admitted (Entry_new proofA) 7 100)\<lparr>orphan := False\<rparr>],
                            m_numOrphans := 0\<rparr>"
    by (simp add: storeA_def update_entry_def admitted_def Entry_new_def proofA_def)
  have sz: "size_storage (storeA 1) = 1" by (simp add: storeA_def size_storage_def)
  show ?thesis
    using add_spec [OF r, of proofA] add_spec [OF r, of proofB]
      add_spec [OF r, of DoubleSpendProof_default] f u sz run_storeA
    by (simp add: size_storage_def length_link)
qed


subsection \<open>Internal errors\<close>

text \<open>On a consistent store a call returns, or throws invalid_argument for an empty proof.\<close>

lemma exec_outcome:
  assumes "store_inv s"
  shows "fst (exec c s) = Inr () \<or> fst (exec c s) = Inl (Thrown invalid_argument)"
proof (cases c)
  case (Add p)
  show ?thesis
  proof (cases "isEmpty p")
    case True
    then show ?thesis using Add by (simp add: add_empty)
  next
    case False
    then show ?thesis using Add add_result [OF assms False] by auto
  qed
next
  case (AddOrphan p peer now)
  show ?thesis
  proof (cases "isEmpty p")
    case True
    then show ?thesis using AddOrphan by (simp add: addOrphan_def add_empty)
  next
    case False
    then show ?thesis using AddOrphan addOrphan_result [OF assms False, of peer now] by auto
  qed
next
  case (ClaimOrphan h)
  then show ?thesis by (simp add: claimOrphan_eq [OF assms])
next
  case (Remove h)
  then show ?thesis by (simp add: remove_eq [OF assms] split: option.splits)
qed simp_all

text \<open>
  C7 does not hold as stated: a decrement that would take the counter under zero
  throws runtime_error, which the caller can catch and which logs nothing; through
  \<open>claimOrphan\<close> the caller of a store whose counter has lost an orphan gets that
  exception, the store is untouched and a run goes on.
\<close>

theorem decrement_underflow_is_thrown:
  "decrementOrphans 1 broken_example = (Inl (Thrown runtime_error), broken_example) \<and>
   claimOrphan 1 broken_example = (Inl (Thrown runtime_error), broken_example) \<and>
   catchable (Thrown runtime_error) \<and> \<not> logged (Thrown runtime_error) \<and>
   run [ClaimOrphan 1] broken_example = Some broken_example"
  by (simp add: eval_defs)

text \<open>
  C7, amended. A decrement by \<open>n > 0\<close> of a counter smaller than \<open>n\<close> throws
  runtime_error with the store unchanged: a failure that the caller can catch and that
  is not logged; \<open>claimOrphan\<close> and \<open>remove\<close> of an orphan on a store whose counter is 0
  hand it to their caller. A modification that cannot be committed, because another
  record has the identity of the modified one, runs \<open>ModFastFail\<close>: the identity is
  logged and the process ends; that failure cannot be caught. On a store reached by
  any sequence of calls neither happens: a call returns, or throws invalid_argument.
\<close>

theorem internal_errors:
  "(n \<noteq> 0 \<and> m_numOrphans s < n \<longrightarrow>
      decrementOrphans n s = (Inl (Thrown runtime_error), s) \<and>
      catchable (Thrown runtime_error) \<and> \<not> logged (Thrown runtime_error)) \<and>
   (find_id h (m_proofs s) = Some e \<and> orphan e \<and> m_numOrphans s = 0 \<longrightarrow>
      claimOrphan h s = (Inl (Thrown runtime_error), s) \<and>
      remove h s = (Inl (Thrown runtime_error), s) \<and>
      run [ClaimOrphan h, Remove h] s = Some s) \<and>
   (split_at h (m_proofs t) = Some (pre, e', post) \<and>
    find_id (entryId (f e')) (pre @ post) \<noteq> None \<longrightarrow>
      fst (modify h f t) = Inl (FastFail (entryId (f e'))) \<and>
      logged (FastFail (entryId (f e'))) \<and> \<not> catchable (FastFail (entryId (f e'))) \<and>
      \<not> survives (fst (modify h f t))) \<and>
   (run cs (construct mx secs hf h1 h2) = Some u \<longrightarrow>
      fst (exec c u) = Inr () \<or> fst (exec c u) = Inl (Thrown invalid_argument))"
proof -
  have a: "decrementOrphans n s = (Inl (Thrown runtime_error), s)"
    if "n \<noteq> 0" "m_numOrphans s < n"
    using that by (simp add: decrementOrphans_def)
  have b: "claimOrphan h s = (Inl (Thrown runtime_error), s) \<and>
      remove h s = (Inl (Thrown runtime_error), s) \<and>
      run [ClaimOrphan h, Remove h] s = Some s"
    if fi: "find_id h (m_proofs s) = Some e" and o: "orphan e" and z: "m_numOrphans s = 0"
  proof -
    have d: "decrementOrphans 1 s = (Inl (Thrown runtime_error), s)"
      using z by (simp add: decrementOrphans_def)
    have c: "claimOrphan h s = (Inl (Thrown runtime_error), s)"
      using fi o d by (simp add: claimOrphan_def)
    have r: "remove h s = (Inl (Thrown runtime_error), s)"
      using fi o d by (simp add: remove_def)
    show ?thesis using c r by simp
  qed
  have c: "fst (modify h f t) = Inl (FastFail (entryId (f e'))) \<and>
      \<not> survives (fst (modify h f t))"
    if "split_at h (m_proofs t) = Some (pre, e', post)"
      "find_id (entryId (f e')) (pre @ post) \<noteq> None"
    using that by (simp add: modify_def commit_def ModFastFail_def)
  have d: "fst (exec c u) = Inr () \<or> fst (exec c u) = Inl (Thrown invalid_argument)"
    if "run cs (construct mx secs hf h1 h2) = Some u"
    by (rule exec_outcome [OF run_store_inv [OF that]])
  show ?thesis
    using a b c d by simp
qed

theorem internal_errors_witness:
  "(1::nat) \<noteq> 0 \<and> m_numOrphans broken_example < 1 \<and>
   decrementOrphans 1 broken_example = (Inl (Thrown runtime_error), broken_example) \<and>
   find_id 1 (m_proofs broken_example) = Some (admitted (Entry_new proofA) 7 100) \<and>
   orphan (admitted (Entry_new proofA) 7 100) \<and> m_numOrphans broken_example = 0 \<and>
   run [ClaimOrphan 1, Remove 1] broken_example = Some broken_example \<and>
   split_at 1 (m_proofs (storeAB 5)) =
     Some ([], admitted (Entry_new proofA) 7 100, [admitted (Entry_new proofB) 8 101]) \<and>
   find_id (GetId proofB) ([] @ [admitted (Entry_new proofB) 8 101]) \<noteq> None \<and>
   fst (modify 1 (\<lambda>e. e\<lparr>dsproof := proofB\<rparr>) (storeAB 5)) = Inl (FastFail 2) \<and>
   run [AddOrphan proofA 7 100] (store0 1) = Some (storeA 1) \<and>
   fst (exec (ClaimOrphan 1) (storeA 1)) = Inr ()"
proof -
  have a: "(1::nat) \<noteq> 0 \<and> m_numOrphans broken_example < 1"
    "find_id 1 (m_proofs broken_example) = Some (admitted (Entry_new proofA) 7 100)"
    "orphan (admitted (Entry_new proofA) 7 100)" "m_numOrphans broken_example = 0"
    by (simp_all add: broken_example_def storeA_def admitted_def Entry_new_def proofA_def)
  have b: "split_at 1 (m_proofs (storeAB 5)) =
     Some ([], admitted (Entry_new proofA) 7 100, [admitted (Entry_new proofB) 8 101]) \<and>
     find_id (entryId ((admitted (Entry_new proofA) 7 100)\<lparr>dsproof := proofB\<rparr>))
       ([] @ [admitted (Entry_new proofB) 8 101]) \<noteq> None"
    by (simp add: storeAB_def admitted_def Entry_new_def proofA_def proofB_def)
  have c: "entryId ((admitted (Entry_new proofA) 7 100)\<lparr>dsproof := proofB\<rparr>) = 2"
    "GetId proofB = 2"
    by (simp_all add: proofB_def)
  have r: "run [AddOrphan proofA 7 100] (construct 1 90 (\<lambda>i h. h + i) \<lparr>k0 = 1, k1 = 2\<rparr>
             \<lparr>k0 = 3, k1 = 4\<rparr>) = Some (storeA 1)"
    using run_storeA by (simp add: store0_def)
  have e: "fst (exec (ClaimOrphan 1) (storeA 1)) = Inr ()"
    by (simp add: eval_defs)
  show ?thesis
    using a b c r e run_storeA
      internal_errors [where n = 1 and s = broken_example and h = 1 and t = "storeAB 5"
        and e = "admitted (Entry_new proofA) 7 100"
        and pre = "[]" and e' = "admitted (Entry_new proofA) 7 100"
        and post = "[admitted (Entry_new proofB) 8 101]" and f = "\<lambda>e. e\<lparr>dsproof := proofB\<rparr>"
        and cs = "[AddOrphan proofA 7 100]" and mx = 1 and secs = 90
        and hf = "\<lambda>i h. h + i" and ?h1.0 = "\<lparr>k0 = 1, k1 = 2\<rparr>" and ?h2.0 = "\<lparr>k0 = 3, k1 = 4\<rparr>"
        and u = "storeA 1" and c = "ClaimOrphan 1"]
    by simp
qed

subsection \<open>addOrphan\<close>

lemma find_id_insert_other:
  "entryId e \<noteq> h' \<Longrightarrow> find_id h' (a @ e # b) = find_id h' (a @ b)"
  by (auto simp: find_id_insert find_id_append split: option.splits)

lemma find_id_insert_same:
  "find_id (entryId e) (a @ b) = None \<Longrightarrow> find_id (entryId e) (a @ e # b) = Some e"
  by (auto simp: find_id_insert find_id_append split: option.splits)

text \<open>
  What \<open>addOrphan\<close> does after \<open>add\<close>, on a consistent store: the counter is
  incremented and the sweep runs as on the store \<open>add\<close> left; the record is there as
  \<open>admitted\<close>; every other identity is found as after the sweep.
\<close>

lemma addOrphan_sweep:
  assumes "store_inv s" and "\<not> isEmpty p"
  shows "\<exists>r s1 s4 s'. add p s = (Inr r, s1) \<and>
     incrementOrphans 1 (GetId p) s1 = (Inr (), s4) \<and>
     addOrphan p peer now s = (Inr (), s') \<and>
     find_id (GetId p) (m_proofs s') = Some (admitted (added p s) peer now) \<and>
     (\<forall>h'. h' \<noteq> GetId p \<longrightarrow> find_id h' (m_proofs s') = find_id h' (m_proofs s4)) \<and>
     s' = s4\<lparr>m_proofs := m_proofs s'\<rparr>"
proof -
  let ?h = "GetId p"
  obtain r s1 where ad: "add p s = (Inr r, s1)" and inv1: "store_inv s1"
    and fi: "find_id ?h (m_proofs s1) = Some (added p s)"
    using add_result [OF assms] by blast
  define kk where "kk = (if highWaterMark (m_maxOrphans s1) < m_numOrphans s1 + 1
                  then m_numOrphans s1 + 1 - m_maxOrphans s1 else 0)"
  let ?e = "admitted (added p s) peer now"
  define s4 where "s4 = s1\<lparr>m_proofs := evict ?h kk (m_proofs s1),
     m_numOrphans := m_numOrphans s1 + 1 - min kk (m_numOrphans s1)\<rparr>"
  obtain a b where eq: "addOrphan p peer now s =
            (Inr (), s1\<lparr>m_proofs := a @ ?e # b,
                        m_numOrphans := m_numOrphans s1 + 1 - min kk (m_numOrphans s1)\<rparr>)"
    and ab: "a @ b = evict ?h kk (filter (\<lambda>x. entryId x \<noteq> ?h) (m_proofs s1))"
    using addOrphan_after_add [OF ad inv1 fi added_simps, of peer now] unfolding kk_def by blast
  have he: "entryId ?e = ?h"
    using find_id_SomeD [OF fi] by (simp add: admitted_def)
  have c1: "length (filter orphan (filter (\<lambda>x. entryId x \<noteq> ?h) (m_proofs s1))) = m_numOrphans s1"
    using count_others [OF fi store_invD(1) [OF inv1]] store_invD(4) [OF inv1] by simp
  have c2: "length (filter (evictable ?h) (m_proofs s1)) = m_numOrphans s1"
    unfolding count_evictable_others by (rule c1)
  have inc: "incrementOrphans 1 ?h s1 = (Inr (), s4)"
    using c2 by (simp add: incrementOrphans_def checkOrphanLimit_eq s4_def kk_def)
  have ab': "a @ b = filter (\<lambda>x. entryId x \<noteq> ?h) (m_proofs s4)"
    unfolding ab by (simp add: s4_def filter_evict)
  have n: "find_id (entryId ?e) (a @ b) = None"
    unfolding ab' he by (simp add: find_id_others)
  let ?s' = "s1\<lparr>m_proofs := a @ ?e # b,
                m_numOrphans := m_numOrphans s1 + 1 - min kk (m_numOrphans s1)\<rparr>"
  have f1: "find_id ?h (m_proofs ?s') = Some ?e"
    using find_id_insert_same [OF n] he by simp
  have f2: "\<forall>h'. h' \<noteq> ?h \<longrightarrow> find_id h' (m_proofs ?s') = find_id h' (m_proofs s4)"
    using he by (simp add: find_id_insert_other ab' find_id_others)
  have f3: "?s' = s4\<lparr>m_proofs := m_proofs ?s'\<rparr>"
    by (simp add: s4_def)
  show ?thesis
    using ad inc eq f1 f2 f3 by blast
qed

text \<open>
  C5. On a store reached by any sequence of calls, \<open>addOrphan\<close> of an empty proof throws
  as \<open>add\<close> does. Otherwise \<open>add\<close> runs first and leaves the record of the proof, not an
  orphan; the counter is then incremented, which may start the sweep, protecting the
  identity of the proof; afterwards the record is stored with the supplied peer handle
  if it had none and one is supplied, with the current time as time stamp if it had
  none, and with the orphan flag set, and all else is as the sweep left it. A time stamp
  that was set is the time stamp after the call.
\<close>

theorem addOrphan_spec:
  assumes "run cs (construct mx secs hf h1 h2) = Some s"
  shows "(isEmpty p \<longrightarrow> addOrphan p peer now s = (Inl (Thrown invalid_argument), s)) \<and>
   (\<not> isEmpty p \<longrightarrow>
      (\<exists>r s1 e s4 s'.
         add p s = (Inr r, s1) \<and>
         find_id (GetId p) (m_proofs s1) = Some e \<and> \<not> orphan e \<and>
         incrementOrphans (if orphan e then 0 else 1) (GetId p) s1 = (Inr (), s4) \<and>
         addOrphan p peer now s = (Inr (), s') \<and>
         find_id (GetId p) (m_proofs s') =
           Some (e\<lparr>nodeId := (if nodeId e < 0 \<and> 0 \<le> peer then peer else nodeId e),
                   timeStamp := (if timeStamp e < 0 then now else timeStamp e),
                   orphan := True\<rparr>) \<and>
         (\<forall>h'. h' \<noteq> GetId p \<longrightarrow> find_id h' (m_proofs s') = find_id h' (m_proofs s4)) \<and>
         s' = s4\<lparr>m_proofs := m_proofs s'\<rparr>)) \<and>
   (\<forall>e0. \<not> isEmpty p \<and> find_id (GetId p) (m_proofs s) = Some e0 \<and> 0 \<le> timeStamp e0 \<longrightarrow>
      (\<exists>e'. find_id (GetId p) (m_proofs (snd (addOrphan p peer now s))) = Some e' \<and>
            timeStamp e' = timeStamp e0))"
proof -
  have inv: "store_inv s" by (rule run_store_inv [OF assms])
  have a: "isEmpty p \<Longrightarrow> addOrphan p peer now s = (Inl (Thrown invalid_argument), s)"
    by (simp add: addOrphan_def add_empty)
  have b: "\<exists>r s1 e s4 s'.
         add p s = (Inr r, s1) \<and>
         find_id (GetId p) (m_proofs s1) = Some e \<and> \<not> orphan e \<and>
         incrementOrphans (if orphan e then 0 else 1) (GetId p) s1 = (Inr (), s4) \<and>
         addOrphan p peer now s = (Inr (), s') \<and>
         find_id (GetId p) (m_proofs s') =
           Some (e\<lparr>nodeId := (if nodeId e < 0 \<and> 0 \<le> peer then peer else nodeId e),
                   timeStamp := (if timeStamp e < 0 then now else timeStamp e),
                   orphan := True\<rparr>) \<and>
         (\<forall>h'. h' \<noteq> GetId p \<longrightarrow> find_id h' (m_proofs s') = find_id h' (m_proofs s4)) \<and>
         s' = s4\<lparr>m_proofs := m_proofs s'\<rparr>"
    if ne: "\<not> isEmpty p"
  proof -
    obtain r s1 s4 s' where ad: "add p s = (Inr r, s1)"
      and inc: "incrementOrphans 1 (GetId p) s1 = (Inr (), s4)"
      and eq: "addOrphan p peer now s = (Inr (), s')"
      and f1: "find_id (GetId p) (m_proofs s') = Some (admitted (added p s) peer now)"
      and f2: "\<forall>h'. h' \<noteq> GetId p \<longrightarrow> find_id h' (m_proofs s') = find_id h' (m_proofs s4)"
      and f3: "s' = s4\<lparr>m_proofs := m_proofs s'\<rparr>"
      using addOrphan_sweep [OF inv ne, of peer now] by blast
    have fi: "find_id (GetId p) (m_proofs s1) = Some (added p s)"
      using add_result [OF inv ne] ad by auto
    have inc': "incrementOrphans (if orphan (added p s) then 0 else 1) (GetId p) s1 = (Inr (), s4)"
      using inc by simp
    have f1': "find_id (GetId p) (m_proofs s') =
           Some ((added p s)\<lparr>nodeId := (if nodeId (added p s) < 0 \<and> 0 \<le> peer then peer
                                         else nodeId (added p s)),
                   timeStamp := (if timeStamp (added p s) < 0 then now else timeStamp (added p s)),
                   orphan := True\<rparr>)"
      using f1 by (simp add: admitted_def)
    show ?thesis
      using ad fi added_simps inc' eq f1' f2 f3 by blast
  qed
  have c: "\<exists>e'. find_id (GetId p) (m_proofs (snd (addOrphan p peer now s))) = Some e' \<and>
            timeStamp e' = timeStamp e0"
    if ne: "\<not> isEmpty p" and fe: "find_id (GetId p) (m_proofs s) = Some e0"
      and ts: "0 \<le> timeStamp e0" for e0
  proof -
    obtain s' where eq: "addOrphan p peer now s = (Inr (), s')"
      and f1: "find_id (GetId p) (m_proofs s') = Some (admitted (added p s) peer now)"
      using addOrphan_sweep [OF inv ne, of peer now] by blast
    have "timeStamp (admitted (added p s) peer now) = timeStamp e0"
      using fe ts by (simp add: admitted_def added_def)
    then show ?thesis using eq f1 by simp
  qed
  show ?thesis using a b c by blast
qed


theorem addOrphan_spec_witness:
  "run [AddOrphan proofA 7 100] (store0 1) = Some (storeA 1) \<and>
   \<not> isEmpty proofA \<and>
   find_id (GetId proofA) (m_proofs (storeA 1)) = Some (admitted (Entry_new proofA) 7 100) \<and>
   0 \<le> timeStamp (admitted (Entry_new proofA) 7 100) \<and>
   (\<exists>e'. find_id (GetId proofA) (m_proofs (snd (addOrphan proofA 9 200 (storeA 1)))) = Some e' \<and>
         timeStamp e' = 100) \<and>
   addOrphan proofA 9 200 (storeA 1) = (Inr (), storeA 1) \<and>
   addOrphan DoubleSpendProof_default 9 200 (storeA 1) =
     (Inl (Thrown invalid_argument), storeA 1)"
proof -
  have r: "run [AddOrphan proofA 7 100] (construct 1 90 (\<lambda>i h. h + i) \<lparr>k0 = 1, k1 = 2\<rparr>
             \<lparr>k0 = 3, k1 = 4\<rparr>) = Some (storeA 1)"
    using run_storeA by (simp add: store0_def)
  have f: "\<not> isEmpty proofA"
    "find_id (GetId proofA) (m_proofs (storeA 1)) = Some (admitted (Entry_new proofA) 7 100)"
    "0 \<le> timeStamp (admitted (Entry_new proofA) 7 100)"
    "timeStamp (admitted (Entry_new proofA) 7 100) = 100"
    "isEmpty DoubleSpendProof_default"
    by (simp_all add: storeA_def admitted_def Entry_new_def proofA_def
        DoubleSpendProof_default_def)
  have e: "addOrphan proofA 9 200 (storeA 1) = (Inr (), storeA 1)"
    by (simp add: eval_defs)
  show ?thesis
    using addOrphan_spec [OF r, of proofA 9 200]
      addOrphan_spec [OF r, of DoubleSpendProof_default 9 200] f e run_storeA
    by simp
qed

subsection \<open>The round trip of an orphan\<close>

text \<open>
  C6 does not hold as stated: with the limit 1 and \<open>proofA\<close> stored as an orphan,
  \<open>add\<close>, \<open>addOrphan\<close> and \<open>claimOrphan\<close> of the fresh \<open>proofB\<close> leave no orphan, where
  there was one before the \<open>addOrphan\<close> call: its sweep has evicted \<open>proofA\<close>.
\<close>

theorem round_trip_loses_orphan:
  "run [AddOrphan proofA 7 100] (store0 1) = Some (storeA 1) \<and>
   find_id (GetId proofB) (m_proofs (storeA 1)) = None \<and>
   numOrphans (snd (add proofB (storeA 1))) = 1 \<and>
   numOrphans (snd (claimOrphan (GetId proofB)
     (snd (addOrphan proofB 8 101 (snd (add proofB (storeA 1))))))) = 0"
  by (simp add: eval_defs numOrphans_def)


text \<open>
  C6, amended. On a store reached by any sequence of calls and with a limit under
  1801439850948199, for a proof that is not empty and not stored and a peer handle that
  is set: \<open>add\<close>, \<open>addOrphan\<close> and \<open>claimOrphan\<close> all return; the record is then stored,
  not an orphan, with the peer handle and the time of the \<open>addOrphan\<close> call; and
  \<open>numOrphans()\<close> is its value before the \<open>addOrphan\<close> call if that value was under
  \<open>floor(limit * 1.25)\<close>, so that no sweep ran, and is the limit minus one (0 for the
  limit 0) if the sweep ran.
\<close>

theorem orphan_round_trip:
  assumes "run cs (construct mx secs hf h1 h2) = Some s"
    and "\<not> isEmpty p" and "find_id (GetId p) (m_proofs s) = None" and "0 \<le> peer"
    and "maxOrphans s < 1801439850948199"
  shows "\<exists>s1 s2 s3. add p s = (Inr True, s1) \<and> addOrphan p peer now s1 = (Inr (), s2) \<and>
      claimOrphan (GetId p) s2 = (Inr (), s3) \<and>
      numOrphans s1 = numOrphans s \<and>
      find_id (GetId p) (m_proofs s3) =
        Some \<lparr>orphan = False, nodeId = peer, timeStamp = now, dsproof = p\<rparr> \<and>
      numOrphans s3 = (if numOrphans s + 1 \<le> nat \<lfloor>real (maxOrphans s) * 1.25\<rfloor>
                       then numOrphans s else maxOrphans s - 1)"
proof -
  let ?h = "GetId p"
  have rg: "m_maxOrphans s < 1801439850948199"
    using assms(5) by (simp add: maxOrphans_def)
  have inv: "store_inv s" by (rule run_store_inv [OF assms(1)])
  define s1 where "s1 = s\<lparr>m_proofs := link (Entry_new p) (m_proofs s)\<rparr>"
  have ad: "add p s = (Inr True, s1)"
    unfolding s1_def by (rule add_new [OF assms(2,3)])
  have inv1: "store_inv s1"
    using add_store_inv [OF inv, of p] ad by simp
  have fi1: "find_id ?h (m_proofs s1) = Some (Entry_new p)"
    using assms(3) by (simp add: s1_def find_id_link Entry_new_def)
  have no: "\<not> orphan (Entry_new p)" by (simp add: Entry_new_def)
  have ad1: "add p s1 = (Inr False, s1)"
    by (rule add_known [OF assms(2) fi1 no])
  define kk where "kk = (if highWaterMark (m_maxOrphans s1) < m_numOrphans s1 + 1
                  then m_numOrphans s1 + 1 - m_maxOrphans s1 else 0)"
  let ?e = "admitted (Entry_new p) peer now"
  obtain a b where eq: "addOrphan p peer now s1 =
            (Inr (), s1\<lparr>m_proofs := a @ ?e # b,
                        m_numOrphans := m_numOrphans s1 + 1 - min kk (m_numOrphans s1)\<rparr>)"
    and ab: "a @ b = evict ?h kk (filter (\<lambda>x. entryId x \<noteq> ?h) (m_proofs s1))"
    using addOrphan_after_add [OF ad1 inv1 fi1 no, of peer now] unfolding kk_def by blast
  define s2 where "s2 = s1\<lparr>m_proofs := a @ ?e # b,
                        m_numOrphans := m_numOrphans s1 + 1 - min kk (m_numOrphans s1)\<rparr>"
  have inv2: "store_inv s2"
    using addOrphan_store_inv [OF inv1, of p peer now] eq by (simp add: s2_def)
  have he: "entryId ?e = ?h" by (simp add: admitted_def Entry_new_def)
  have n: "find_id (entryId ?e) (a @ b) = None"
    unfolding ab he filter_evict [symmetric] by (simp add: find_id_others)
  have fi2: "find_id ?h (m_proofs s2) = Some ?e"
    using find_id_insert_same [OF n] he by (simp add: s2_def)
  have oe: "orphan ?e" by (simp add: admitted_def)
  define s3 where "s3 = update_entry ?h (\<lambda>e. e\<lparr>orphan := False\<rparr>)
                         (s2\<lparr>m_numOrphans := m_numOrphans s2 - 1\<rparr>)"
  have cl: "claimOrphan ?h s2 = (Inr (), s3)"
    using fi2 oe by (simp add: claimOrphan_eq [OF inv2] s3_def)
  have fi3: "find_id ?h (m_proofs s3) =
        Some \<lparr>orphan = False, nodeId = peer, timeStamp = now, dsproof = p\<rparr>"
    using fi2 assms(4)
    by (simp add: s3_def update_entry_def find_id_update admitted_def Entry_new_def)
  have n1: "m_numOrphans s1 = m_numOrphans s" "m_maxOrphans s1 = m_maxOrphans s"
    by (simp_all add: s1_def)
  have "numOrphans s3 = (if numOrphans s + 1 \<le> highWaterMark (maxOrphans s)
                       then numOrphans s else maxOrphans s - 1)"
    using highWaterMark_ge [OF rg]
    by (auto simp: s3_def s2_def update_entry_def numOrphans_def maxOrphans_def n1 kk_def min_def)
  then have cnt: "numOrphans s3 =
      (if numOrphans s + 1 \<le> nat \<lfloor>real (maxOrphans s) * 1.25\<rfloor>
       then numOrphans s else maxOrphans s - 1)"
    unfolding maxOrphans_def highWaterMark_floor [OF rg] .
  have n1': "numOrphans s1 = numOrphans s"
    using n1 by (simp add: numOrphans_def)
  show ?thesis
    using ad eq [folded s2_def] cl fi3 cnt n1' by blast
qed

lemma run_storeA5: "run [AddOrphan proofA 7 100] (store0 5) = Some (storeA 5)"
  by (simp add: eval_defs)

theorem orphan_round_trip_witness:
  "run [AddOrphan proofA 7 100] (store0 5) = Some (storeA 5) \<and>
   \<not> isEmpty proofB \<and> find_id (GetId proofB) (m_proofs (storeA 5)) = None \<and> (0::int) \<le> 8 \<and>
   maxOrphans (storeA 5) < 1801439850948199 \<and>
   numOrphans (storeA 5) + 1 \<le> nat \<lfloor>real (maxOrphans (storeA 5)) * 1.25\<rfloor> \<and>
   (\<exists>s1 s2 s3. add proofB (storeA 5) = (Inr True, s1) \<and>
      addOrphan proofB 8 101 s1 = (Inr (), s2) \<and>
      claimOrphan (GetId proofB) s2 = (Inr (), s3) \<and>
      find_id (GetId proofB) (m_proofs s3) =
        Some \<lparr>orphan = False, nodeId = 8, timeStamp = 101, dsproof = proofB\<rparr> \<and>
      numOrphans s3 = numOrphans (storeA 5))"
proof -
  have r: "run [AddOrphan proofA 7 100] (construct 5 90 (\<lambda>i h. h + i) \<lparr>k0 = 1, k1 = 2\<rparr>
             \<lparr>k0 = 3, k1 = 4\<rparr>) = Some (storeA 5)"
    using run_storeA5 by (simp add: store0_def)
  have f: "\<not> isEmpty proofB" "find_id (GetId proofB) (m_proofs (storeA 5)) = None"
    by (simp_all add: storeA_def admitted_def Entry_new_def proofA_def proofB_def)
  have rg: "maxOrphans (storeA 5) < 1801439850948199"
    by (simp add: storeA_def store0_def construct_def maxOrphans_def)
  have "nat \<lfloor>real (maxOrphans (storeA 5)) * 1.25\<rfloor> = maxOrphans (storeA 5) * 5 div 4"
    by (rule five_quarters_floor)
  then have g: "numOrphans (storeA 5) + 1 \<le> nat \<lfloor>real (maxOrphans (storeA 5)) * 1.25\<rfloor>"
    by (simp add: storeA_def store0_def construct_def numOrphans_def maxOrphans_def)
  have p: "(0::int) \<le> 8" by simp
  from orphan_round_trip [OF r f p rg, of 101]
  obtain s1 s2 s3 where a: "add proofB (storeA 5) = (Inr True, s1)"
    and b: "addOrphan proofB 8 101 s1 = (Inr (), s2)"
    and c: "claimOrphan (GetId proofB) s2 = (Inr (), s3)"
    and d: "find_id (GetId proofB) (m_proofs s3) =
        Some \<lparr>orphan = False, nodeId = 8, timeStamp = 101, dsproof = proofB\<rparr>"
    and e: "numOrphans s3 =
      (if numOrphans (storeA 5) + 1 \<le> nat \<lfloor>real (maxOrphans (storeA 5)) * 1.25\<rfloor>
       then numOrphans (storeA 5) else maxOrphans (storeA 5) - 1)"
    by blast
  have e': "numOrphans s3 = numOrphans (storeA 5)"
    using e g by (simp only: if_True)
  have ex: "\<exists>s1 s2 s3. add proofB (storeA 5) = (Inr True, s1) \<and>
      addOrphan proofB 8 101 s1 = (Inr (), s2) \<and>
      claimOrphan (GetId proofB) s2 = (Inr (), s3) \<and>
      find_id (GetId proofB) (m_proofs s3) =
        Some \<lparr>orphan = False, nodeId = 8, timeStamp = 101, dsproof = proofB\<rparr> \<and>
      numOrphans s3 = numOrphans (storeA 5)"
    by (intro exI [of _ s1] exI [of _ s2] exI [of _ s3] conjI a b c d e')
  show ?thesis
    by (intro conjI run_storeA5 f p rg g ex)
qed


subsection \<open>The bound on the number of orphans\<close>

lemma addOrphan_counter:
  assumes "store_inv s" and "\<not> isEmpty p"
  shows "\<exists>r s1 s'. add p s = (Inr r, s1) \<and> addOrphan p peer now s = (Inr (), s') \<and>
     m_maxOrphans s1 = m_maxOrphans s \<and> m_maxOrphans s' = m_maxOrphans s \<and>
     m_numOrphans s' =
       m_numOrphans s1 + 1 -
         min (if highWaterMark (m_maxOrphans s) < m_numOrphans s1 + 1
              then m_numOrphans s1 + 1 - m_maxOrphans s else 0) (m_numOrphans s1) \<and>
     find_id (GetId p) (m_proofs s') = Some (admitted (added p s) peer now)"
proof -
  obtain r s1 where ad: "add p s = (Inr r, s1)" and inv1: "store_inv s1"
    and fi: "find_id (GetId p) (m_proofs s1) = Some (added p s)"
    and mx: "m_maxOrphans s1 = m_maxOrphans s"
    using add_result [OF assms] by blast
  obtain s4 s' where eq: "addOrphan p peer now s = (Inr (), s')"
    and f1: "find_id (GetId p) (m_proofs s') = Some (admitted (added p s) peer now)"
    using addOrphan_sweep [OF assms, of peer now] by blast
  obtain a b where eq': "addOrphan p peer now s =
       (Inr (), s1\<lparr>m_proofs := a @ admitted (added p s) peer now # b,
                   m_numOrphans := m_numOrphans s1 + 1 -
                     min (if highWaterMark (m_maxOrphans s1) < m_numOrphans s1 + 1
                          then m_numOrphans s1 + 1 - m_maxOrphans s1 else 0)
                         (m_numOrphans s1)\<rparr>)"
    using addOrphan_after_add [OF ad inv1 fi added_simps, of peer now] by blast
  show ?thesis
    using ad eq eq' f1 mx by auto
qed

lemma add_counter_le:
  assumes "store_inv s"
  shows "m_numOrphans (snd (add p s)) \<le> m_numOrphans s"
proof (cases "isEmpty p")
  case True
  then show ?thesis by (simp add: add_empty)
next
  case ne: False
  show ?thesis
  proof (cases "find_id (GetId p) (m_proofs s)")
    case None
    then show ?thesis by (simp add: add_new [OF ne])
  next
    case (Some e)
    then show ?thesis
      by (cases "orphan e")
         (simp_all add: add_orphan [OF assms ne Some] add_known [OF ne Some] update_entry_def)
  qed
qed

lemma addOrphan_bound:
  assumes "store_inv s" and "m_numOrphans s \<le> max 1 (highWaterMark (m_maxOrphans s))"
    and "m_maxOrphans s \<le> highWaterMark (m_maxOrphans s)"
  shows "m_numOrphans (snd (addOrphan p peer now s)) \<le> max 1 (highWaterMark (m_maxOrphans s)) \<and>
         m_maxOrphans (snd (addOrphan p peer now s)) = m_maxOrphans s"
proof (cases "isEmpty p")
  case True
  then show ?thesis using assms(2) by (simp add: addOrphan_def add_empty)
next
  case False
  obtain r s1 s' where ad: "add p s = (Inr r, s1)" and eq: "addOrphan p peer now s = (Inr (), s')"
    and mx: "m_maxOrphans s' = m_maxOrphans s"
    and cnt: "m_numOrphans s' =
       m_numOrphans s1 + 1 -
         min (if highWaterMark (m_maxOrphans s) < m_numOrphans s1 + 1
              then m_numOrphans s1 + 1 - m_maxOrphans s else 0) (m_numOrphans s1)"
    using addOrphan_counter [OF assms(1) False, of peer now] by blast
  have "m_numOrphans s1 \<le> m_numOrphans s"
    using add_counter_le [OF assms(1), of p] ad by simp
  then have "m_numOrphans s' \<le> max 1 (highWaterMark (m_maxOrphans s))"
    using assms(2,3) unfolding cnt
    by (auto simp: min_def max_def split: if_splits)
  then show ?thesis using eq mx by simp
qed

lemma run_addOrphans_bound:
  assumes "store_inv s" and "m_numOrphans s \<le> max 1 (highWaterMark (m_maxOrphans s))"
    and "m_maxOrphans s \<le> highWaterMark (m_maxOrphans s)"
    and "run (map (\<lambda>(p, peer, now). AddOrphan p peer now) calls) s = Some s'"
  shows "store_inv s' \<and> m_maxOrphans s' = m_maxOrphans s \<and>
         m_numOrphans s' \<le> max 1 (highWaterMark (m_maxOrphans s))"
  using assms
proof (induction calls arbitrary: s)
  case Nil
  then show ?case by simp
next
  case (Cons c calls)
  obtain p peer now where c: "c = (p, peer, now)" by (cases c) auto
  obtain r s1 where e: "addOrphan p peer now s = (r, s1)" by (cases "addOrphan p peer now s")
  have sv: "survives r" using exec_survives [OF Cons.prems(1), of "AddOrphan p peer now"] e by simp
  have i1: "store_inv s1" using addOrphan_store_inv [OF Cons.prems(1), of p peer now] e by simp
  have b1: "m_numOrphans s1 \<le> max 1 (highWaterMark (m_maxOrphans s))"
    and m1: "m_maxOrphans s1 = m_maxOrphans s"
    using addOrphan_bound [OF Cons.prems(1,2,3), of p peer now] e by simp_all
  have g1: "m_maxOrphans s1 \<le> highWaterMark (m_maxOrphans s1)"
    using Cons.prems(3) m1 by simp
  have "run (map (\<lambda>(p, peer, now). AddOrphan p peer now) calls) s1 = Some s'"
    using Cons.prems(4) c e sv by simp
  from Cons.IH [OF i1 _ g1 this] b1 m1 show ?case by simp
qed

text \<open>
  C2 does not hold as stated for the limit 0: the first orphan is admitted and
  cannot be evicted by its own call, so after it \<open>numOrphans()\<close> is 1, more than
  \<open>floor(0 * 1.25) = 0\<close>, although the sweep ran.
\<close>

theorem eviction_bound_fails_at_zero:
  "run (map (\<lambda>(p, peer, now). AddOrphan p peer now) [(proofA, 7, 100)]) (store0 0) =
     Some (storeA 0) \<and>
   maxOrphans (store0 0) = 0 \<and>
   highWaterMark (maxOrphans (store0 0)) < numOrphans (snd (add proofA (store0 0))) + 1 \<and>
   nat \<lfloor>real (maxOrphans (store0 0)) * 1.25\<rfloor> < numOrphans (storeA 0) \<and>
   maxOrphans (store0 0) < numOrphans (storeA 0)"
  by (simp add: eval_defs numOrphans_def maxOrphans_def)

text \<open>
  C2, amended. After any sequence of \<open>addOrphan\<close> calls on a freshly constructed store
  with a limit \<open>mx\<close> under 1801439850948199, \<open>numOrphans()\<close> is at most
  \<open>floor(mx * 1.25)\<close>, or 1 if that is 0. A further \<open>addOrphan\<close> of a proof that is not empty returns; if its increment
  takes the counter over the high-water mark, so that the sweep runs, the count after
  the call is at most \<open>mx\<close>, or 1 if \<open>mx\<close> is 0; and the record it admits is stored as
  an orphan after the call.
\<close>

theorem eviction_bound:
  assumes "run (map (\<lambda>(p, peer, now). AddOrphan p peer now) calls)
             (construct mx secs hf h1 h2) = Some s"
    and "mx < 1801439850948199"
  shows "numOrphans s \<le> max 1 (nat \<lfloor>real mx * 1.25\<rfloor>) \<and> maxOrphans s = mx \<and>
   (\<not> isEmpty p \<longrightarrow>
      (\<exists>r s1 s'. add p s = (Inr r, s1) \<and> addOrphan p peer now s = (Inr (), s') \<and>
         (nat \<lfloor>real mx * 1.25\<rfloor> < numOrphans s1 + 1 \<longrightarrow> numOrphans s' \<le> max 1 mx) \<and>
         (\<exists>e. find_id (GetId p) (m_proofs s') = Some e \<and> orphan e)))"
proof -
  let ?s0 = "construct mx secs hf h1 h2"
  have i0: "store_inv ?s0" by (rule construct_inv)
  have b0: "m_numOrphans ?s0 \<le> max 1 (highWaterMark (m_maxOrphans ?s0))"
    by (simp add: construct_def)
  have m0: "m_maxOrphans ?s0 = mx" by (simp add: construct_def)
  have ge: "mx \<le> highWaterMark mx" by (rule highWaterMark_ge [OF assms(2)])
  have g0: "m_maxOrphans ?s0 \<le> highWaterMark (m_maxOrphans ?s0)"
    using ge by (simp add: construct_def)
  have inv: "store_inv s" and mx: "m_maxOrphans s = mx"
    and bd: "m_numOrphans s \<le> max 1 (highWaterMark mx)"
    using run_addOrphans_bound [OF i0 b0 g0 assms(1)] m0 by simp_all
  have nxt: "\<exists>r s1 s'. add p s = (Inr r, s1) \<and> addOrphan p peer now s = (Inr (), s') \<and>
         (highWaterMark mx < numOrphans s1 + 1 \<longrightarrow> numOrphans s' \<le> max 1 mx) \<and>
         (\<exists>e. find_id (GetId p) (m_proofs s') = Some e \<and> orphan e)"
    if ne: "\<not> isEmpty p"
  proof -
    obtain r s1 s' where ad: "add p s = (Inr r, s1)"
      and eq: "addOrphan p peer now s = (Inr (), s')"
      and cnt: "m_numOrphans s' =
         m_numOrphans s1 + 1 -
           min (if highWaterMark (m_maxOrphans s) < m_numOrphans s1 + 1
                then m_numOrphans s1 + 1 - m_maxOrphans s else 0) (m_numOrphans s1)"
      and f: "find_id (GetId p) (m_proofs s') = Some (admitted (added p s) peer now)"
      using addOrphan_counter [OF inv ne, of peer now] by blast
    have sw: "highWaterMark mx < numOrphans s1 + 1 \<longrightarrow> numOrphans s' \<le> max 1 mx"
      using ge unfolding cnt numOrphans_def mx
      by (auto simp: min_def max_def)
    have "orphan (admitted (added p s) peer now)" by (simp add: admitted_def)
    then show ?thesis using ad eq sw f by blast
  qed
  show ?thesis
    unfolding highWaterMark_floor [OF assms(2), symmetric]
    using bd mx nxt by (simp add: numOrphans_def maxOrphans_def)
qed

lemma run_storeAB2:
  "run (map (\<lambda>(p, peer, now). AddOrphan p peer now) [(proofA, 7, 100), (proofB, 8, 101)])
     (store0 2) = Some (storeAB 2)"
  by (simp add: eval_defs)

theorem eviction_bound_witness:
  "run (map (\<lambda>(p, peer, now). AddOrphan p peer now) [(proofA, 7, 100), (proofB, 8, 101)])
     (store0 2) = Some (storeAB 2) \<and>
   (2::nat) < 1801439850948199 \<and>
   numOrphans (storeAB 2) \<le> max 1 (nat \<lfloor>real 2 * 1.25\<rfloor>) \<and>
   \<not> isEmpty proofC \<and>
   nat \<lfloor>real 2 * 1.25\<rfloor> < numOrphans (snd (add proofC (storeAB 2))) + 1 \<and>
   (\<exists>r s1 s'. add proofC (storeAB 2) = (Inr r, s1) \<and>
       addOrphan proofC 9 102 (storeAB 2) = (Inr (), s') \<and>
       numOrphans s' \<le> max 1 2 \<and>
       (\<exists>e. find_id (GetId proofC) (m_proofs s') = Some e \<and> orphan e))"
proof -
  have r: "run (map (\<lambda>(p, peer, now). AddOrphan p peer now) [(proofA, 7, 100), (proofB, 8, 101)])
     (construct 2 90 (\<lambda>i h. h + i) \<lparr>k0 = 1, k1 = 2\<rparr> \<lparr>k0 = 3, k1 = 4\<rparr>) = Some (storeAB 2)"
    using run_storeAB2 by (simp add: store0_def)
  have f: "\<not> isEmpty proofC" by (simp add: proofC_def)
  have rg: "(2::nat) < 1801439850948199" by simp
  have g: "nat \<lfloor>real 2 * 1.25\<rfloor> < numOrphans (snd (add proofC (storeAB 2))) + 1"
    using five_quarters_floor [of 2] by (simp add: eval_defs numOrphans_def)
  from eviction_bound [OF r rg, of proofC 9 102] f
  obtain r' s1 s' where a: "add proofC (storeAB 2) = (Inr r', s1)"
    and b: "addOrphan proofC 9 102 (storeAB 2) = (Inr (), s')"
    and c: "nat \<lfloor>real 2 * 1.25\<rfloor> < numOrphans s1 + 1 \<longrightarrow> numOrphans s' \<le> max 1 2"
    and d: "\<exists>e. find_id (GetId proofC) (m_proofs s') = Some e \<and> orphan e"
    and e: "numOrphans (storeAB 2) \<le> max 1 (nat \<lfloor>real 2 * 1.25\<rfloor>)"
    by auto
  have "numOrphans s' \<le> max 1 2" using c g a by simp
  then show ?thesis using run_storeAB2 rg f g a b d e by blast
qed


end
